theory Spec2Isabelle
  imports Main "HOL-Library.AList"
begin

section \<open>The transition engine of the router (history/base.js)\<close>

text \<open>
  The development follows the base class \<open>History\<close> and the helpers of
  \<open>util/resolve-components.js\<close>. JavaScript objects that are compared by reference
  (routes, route records) carry an explicit reference. The callbacks that the engine
  only calls (ready, error and after callbacks, \<open>onComplete\<close>, \<open>onAbort\<close>, the route
  listener) are opaque: each is identified by a number, a call is recorded in the trace
  with its arguments, and it returns without throwing and without calling the engine.
  The methods that the backends implement (\<open>ensureURL\<close>, \<open>push\<close>, \<open>replace\<close>) are
  recorded in the trace in the same way. Guards and async factories are given with what
  they do when they are called; what they do later is an event from outside
  (\<open>resume\<close>, \<open>settle\<close>). An exception is a value: a function that can throw returns
  the state together with the exception, if one leaves it.
\<close>

subsection \<open>Transition diff: \<open>resolveQueue\<close>\<close>

type_synonym ref = nat

text \<open>Reading \<open>arr[i]\<close>: out of range JavaScript yields \<open>undefined\<close>, here \<open>None\<close>.\<close>

definition js_index :: "'a list \<Rightarrow> nat \<Rightarrow> 'a option" where
  "js_index xs i = (if i < length xs then Some (xs ! i) else None)"

text \<open>
  The \<open>for\<close> loop of \<open>resolveQueue\<close>: \<open>i\<close> runs from its start value while
  \<open>i < max\<close> and stops at the first index where \<open>current[i] !== next[i]\<close>.
\<close>

function scan :: "ref list \<Rightarrow> ref list \<Rightarrow> nat \<Rightarrow> nat" where
  "scan current nxt i =
     (if i < max (length current) (length nxt)
      then (if js_index current i \<noteq> js_index nxt i then i else scan current nxt (i + 1))
      else i)"
  by pat_completeness auto
termination
  by (relation "measure (\<lambda>(c, n, i). max (length c) (length n) - i)") auto

declare scan.simps [simp del]

record diff =
  updated :: "ref list"
  activated :: "ref list"
  deactivated :: "ref list"

text \<open>\<open>slice(0, i)\<close> and \<open>slice(i)\<close> clamp to the length, as \<open>take\<close> and \<open>drop\<close> do.\<close>

definition resolveQueue :: "ref list \<Rightarrow> ref list \<Rightarrow> diff" where
  "resolveQueue current nxt =
     (let i = scan current nxt 0
      in \<lparr> updated = take i nxt, activated = drop i nxt, deactivated = drop i current \<rparr>)"

subsection \<open>JavaScript values\<close>

type_synonym cb = nat

record route =
  rid :: ref
  path :: string
  hash :: string
  query :: "(string \<times> string) list"
  params :: "(string \<times> string) list"
  fullPath :: string
  matched :: "ref list"

text \<open>
  Modelled from the spec: \<open>START\<close> of \<open>util/route\<close> is not among the sources. The spec
  has it as the sentinel start route that \<open>current\<close> is initialised to; the engine
  compares other routes with it by reference.
\<close>

definition START :: route where
  "START = \<lparr> rid = 0, path = ''/'', hash = [], query = [], params = [], fullPath = ''/'',
             matched = [] \<rparr>"

datatype failure_type = redirected | aborted | cancelled | duplicated

text \<open>
  The values a guard can hand to \<open>next\<close> or throw. \<open>JError\<close> is an \<open>Error\<close> object
  with its message; \<open>JResolveError key reason\<close> is the object built by
  \<open>new Error(`Failed to resolve async component ${key}: ${reason}`)\<close>;
  \<open>JNavFailure\<close> is an \<open>Error\<close> made by one of the \<open>createNavigation...Error\<close>
  functions.
\<close>

datatype jsval =
    JUndefined
  | JNull
  | JBool bool
  | JNum int
  | JStr string
  | JFun cb
  | JObj "(string \<times> jsval) list"
  | JError string
  | JResolveError string jsval
  | JNavFailure failure_type route route

fun typeof :: "jsval \<Rightarrow> string" where
  "typeof JUndefined = ''undefined''"
| "typeof JNull = ''object''"
| "typeof (JBool b) = ''boolean''"
| "typeof (JNum n) = ''number''"
| "typeof (JStr s) = ''string''"
| "typeof (JFun f) = ''function''"
| "typeof (JObj ps) = ''object''"
| "typeof (JError m) = ''object''"
| "typeof (JResolveError k r) = ''object''"
| "typeof (JNavFailure t f r) = ''object''"

fun truthy :: "jsval \<Rightarrow> bool" where
  "truthy JUndefined = False"
| "truthy JNull = False"
| "truthy (JBool b) = b"
| "truthy (JNum n) = (n \<noteq> 0)"
| "truthy (JStr s) = (s \<noteq> [])"
| "truthy v = True"

text \<open>
  Reading a property \<open>v.key\<close>: on \<open>null\<close> and \<open>undefined\<close> JavaScript throws a
  \<open>TypeError\<close> (\<open>Inl\<close>); a property that is not there reads as \<open>undefined\<close>.
\<close>

fun get_prop :: "jsval \<Rightarrow> string \<Rightarrow> jsval + jsval" where
  "get_prop JUndefined key = Inl (JError ''TypeError'')"
| "get_prop JNull key = Inl (JError ''TypeError'')"
| "get_prop (JObj ps) key = Inr (case map_of ps key of None \<Rightarrow> JUndefined | Some v \<Rightarrow> v)"
| "get_prop v key = Inr JUndefined"

text \<open>
  Modelled from the spec: \<open>util/errors\<close> is not among the sources. The spec (sections 6
  and 7) has four kinds of navigation failure, each carrying the \<open>from\<close> and \<open>to\<close>
  routes, and tells them apart from genuine \<open>Error\<close> values.
\<close>

definition createNavigationDuplicatedError :: "route \<Rightarrow> route \<Rightarrow> jsval" where
  "createNavigationDuplicatedError from to = JNavFailure duplicated from to"

definition createNavigationCancelledError :: "route \<Rightarrow> route \<Rightarrow> jsval" where
  "createNavigationCancelledError from to = JNavFailure cancelled from to"

definition createNavigationRedirectedError :: "route \<Rightarrow> route \<Rightarrow> jsval" where
  "createNavigationRedirectedError from to = JNavFailure redirected from to"

definition createNavigationAbortedError :: "route \<Rightarrow> route \<Rightarrow> jsval" where
  "createNavigationAbortedError from to = JNavFailure aborted from to"

fun isError :: "jsval \<Rightarrow> bool" where
  "isError (JError m) = True"
| "isError (JResolveError k r) = True"
| "isError (JNavFailure t f r) = True"
| "isError v = False"

fun isNavigationFailure :: "jsval \<Rightarrow> failure_type option \<Rightarrow> bool" where
  "isNavigationFailure (JNavFailure t f r) None = True"
| "isNavigationFailure (JNavFailure t f r) (Some ty) = (t = ty)"
| "isNavigationFailure v ty = False"

text \<open>
  Modelled from the spec: \<open>isSameRoute\<close> of \<open>util/route\<close> is not among the sources.
  Section 3 of the spec: path, query, hash and params are deep-equal (the condition on
  the matched chains is written out in \<open>confirmTransition\<close> itself).
\<close>

definition isSameRoute :: "route \<Rightarrow> route \<Rightarrow> bool" where
  "isSameRoute a b \<longleftrightarrow>
     path a = path b \<and> query a = query b \<and> hash a = hash b \<and> params a = params b"

subsection \<open>Numbers and array properties\<close>

datatype jsnum = Num int | NaN

text \<open>
  Reading a named property of an array: \<open>length\<close> is the only named property an array
  of matched records has; every other name reads as \<open>undefined\<close> (\<open>None\<close>).
\<close>

definition array_prop :: "'a list \<Rightarrow> string \<Rightarrow> jsnum option" where
  "array_prop xs name = (if name = ''length'' then Some (Num (int (length xs))) else None)"

text \<open>\<open>x - 1\<close>: \<open>undefined\<close> converts to \<open>NaN\<close>, and \<open>NaN - 1\<close> is \<open>NaN\<close>.\<close>

fun minus_one :: "jsnum option \<Rightarrow> jsnum" where
  "minus_one (Some (Num n)) = Num (n - 1)"
| "minus_one (Some NaN) = NaN"
| "minus_one None = NaN"

text \<open>\<open>===\<close> on numbers: \<open>NaN\<close> is equal to nothing, itself included.\<close>

fun strict_eq :: "jsnum \<Rightarrow> jsnum \<Rightarrow> bool" where
  "strict_eq (Num a) (Num b) = (a = b)"
| "strict_eq x y = False"

text \<open>\<open>arr[n]\<close> for a number \<open>n\<close>: \<open>undefined\<close> outside the array, also for \<open>-1\<close> and \<open>NaN\<close>.\<close>

fun array_at :: "'a list \<Rightarrow> jsnum \<Rightarrow> 'a option" where
  "array_at xs (Num i) = (if 0 \<le> i \<and> i < int (length xs) then Some (xs ! nat i) else None)"
| "array_at xs NaN = None"

text \<open>
  The property name that \<open>confirmTransition\<close> reads from \<open>current.matched\<close>: the
  letters \<open>lengt\<close>, the character U+00B7 (two bytes in UTF-8), the letter \<open>h\<close>.
\<close>

definition lengt_h :: string where
  "lengt_h = ''lengt'' @ [CHR 0xC2, CHR 0xB7] @ ''h''"

subsection \<open>Guards, components and route records\<close>

text \<open>
  A guard is user code \<open>(to, from, next) => ...\<close>. What it does when it is invoked is
  given with it: it calls \<open>next(v)\<close> before it returns, it throws, or it returns
  without having called \<open>next\<close> (and may call it later). The number identifies the
  function.
\<close>

datatype behaviour = CallsNext jsval | Throws jsval | Suspends

datatype guard = Guard nat behaviour

text \<open>\<open>def.options[key]\<close>: nothing, one function, or an array of functions.\<close>

datatype guards = NoGuard | OneGuard guard | GuardArray "guard list"

datatype hook_name = beforeRouteEnter | beforeRouteUpdate | beforeRouteLeave

datatype comp_def = Options guards guards guards

fun option_of :: "comp_def \<Rightarrow> hook_name \<Rightarrow> guards" where
  "option_of (Options e u l) beforeRouteEnter = e"
| "option_of (Options e u l) beforeRouteUpdate = u"
| "option_of (Options e u l) beforeRouteLeave = l"

text \<open>
  An async factory \<open>(resolve, reject) => ...\<close>: the calls of \<open>resolve\<close> and \<open>reject\<close>
  it makes before it returns, and the value it throws, if any. Calls made later (by a
  promise it returned, or by its own asynchronous code) are events, see \<open>settle\<close>.
\<close>

datatype factory_call = CallResolve comp_def | CallReject jsval

datatype factory = Factory nat "factory_call list" "jsval option"

text \<open>A view binding: a component definition, or a function without \<open>cid\<close>.\<close>

datatype component = Resolved comp_def | AsyncFactory factory

record route_record =
  components :: "(string \<times> component) list"
  instances :: "(string \<times> nat) list"
  enteredCbs :: "(string \<times> jsval list) list"
  beforeEnter :: "guard option"

text \<open>The functions that the engine puts into its queues.\<close>

datatype hook =
    GlobalHook guard
  | BoundRouteGuard guard nat
  | RouteEnterGuard guard ref string
  | ResolveAsync "ref list"

subsection \<open>The state of the engine\<close>

text \<open>
  The trace: a call of an opaque callback with its arguments, the invocation of a hook of
  a queue, \<open>ensureURL(push)\<close>, \<open>push(to)\<close> and \<open>replace(to)\<close> of the backend, the
  warnings and \<open>console.error\<close>, and the \<open>$nextTick\<close> that is scheduled to deliver the
  entered callbacks of a route.
\<close>

datatype arg = ARoute route | AVal jsval

datatype event =
    Call cb "arg list"
  | RunHook hook
  | EnsureURL bool
  | Push jsval
  | Replace jsval
  | Warn string
  | WarnResolve string jsval
  | ConsoleError jsval
  | NextTick route

text \<open>
  The closures that \<open>confirmTransition\<close> receives: a plain callback, or the closure
  that \<open>transitionTo\<close> builds around its optional callback and \<open>prev\<close>.
\<close>

datatype on_complete = CompleteCb cb | TransitionComplete "cb option" route

datatype on_abort = AbortCb cb | TransitionAbort "cb option" route

text \<open>The variables that the closures of one call of \<open>confirmTransition\<close> share.\<close>

record nav =
  n_route :: route
  n_current :: route
  n_activated :: "ref list"
  n_onComplete :: on_complete
  n_onAbort :: "on_abort option"

datatype phase = First | Second

text \<open>
  A guard that returned without calling \<open>next\<close> leaves a live \<open>next\<close> behind: the
  navigation, the hook that holds it, the queue it belongs to and the entries after it.
\<close>

datatype susp = Susp nav hook phase "hook option list"

text \<open>
  The variables of one run of the step that \<open>resolveAsyncComponents\<close> returns:
  \<open>hasAsync\<close>, \<open>pending\<close>, \<open>error\<close>, the slots for which a pair of \<open>resolve\<close> and
  \<open>reject\<close> has been made, and the \<open>called\<close> flag of each \<open>once\<close>. With them, the
  \<open>next\<close> the step was called with.
\<close>

record step =
  st_nav :: nav
  st_phase :: phase
  st_rest :: "hook option list"
  st_hasAsync :: bool
  st_pending :: int
  st_error :: "jsval option"
  st_slots :: "(ref \<times> string) list"
  st_resolve_called :: "(ref \<times> string) list"
  st_reject_called :: "(ref \<times> string) list"

text \<open>
  The fields of \<open>History\<close> that the engine works with: \<open>listener\<close> is the field
  \<open>cb\<close> set by \<open>listen\<close>, \<open>listeners\<close> the list of cleanup functions. With them
  the fields of the router that the engine reads (\<open>beforeHooks\<close>, \<open>resolveHooks\<close>,
  \<open>afterHooks\<close> and whether \<open>app\<close> is set), whether the build is a production build,
  the route records by reference, the suspended guards, the runs of the resolve step,
  and the trace of what was called.
\<close>

record history =
  current :: route
  pending :: "route option"
  ready :: bool
  readyCbs :: "cb list"
  readyErrorCbs :: "cb list"
  errorCbs :: "cb list"
  listener :: "cb option"
  listeners :: "cb list"
  beforeHooks :: "guard option list"
  resolveHooks :: "guard option list"
  afterHooks :: "cb option list"
  app :: bool
  production :: bool
  records :: "ref \<Rightarrow> route_record"
  waiting :: "susp list"
  steps :: "step list"
  trace :: "event list"

type_synonym res = "history \<times> jsval option"

definition emit :: "event \<Rightarrow> history \<Rightarrow> history" where
  "emit e h = h\<lparr>trace := trace h @ [e]\<rparr>"

text \<open>\<open>cbs.forEach(cb => cb(args))\<close>\<close>

definition call_each :: "cb list \<Rightarrow> arg list \<Rightarrow> history \<Rightarrow> history" where
  "call_each cbs args h = h\<lparr>trace := trace h @ map (\<lambda>c. Call c args) cbs\<rparr>"

definition onReady :: "cb \<Rightarrow> cb option \<Rightarrow> history \<Rightarrow> history" where
  "onReady c errorCb h =
     (if ready h then emit (Call c []) h
      else (let h1 = h\<lparr>readyCbs := readyCbs h @ [c]\<rparr>
            in case errorCb of
                 Some e \<Rightarrow> h1\<lparr>readyErrorCbs := readyErrorCbs h1 @ [e]\<rparr>
               | None \<Rightarrow> h1))"

definition onError :: "cb \<Rightarrow> history \<Rightarrow> history" where
  "onError errorCb h = h\<lparr>errorCbs := errorCbs h @ [errorCb]\<rparr>"

definition updateRoute :: "route \<Rightarrow> history \<Rightarrow> history" where
  "updateRoute r h =
     (let h1 = h\<lparr>current := r\<rparr>
      in case listener h1 of Some c \<Rightarrow> emit (Call c [ARoute r]) h1 | None \<Rightarrow> h1)"

definition listen :: "cb \<Rightarrow> history \<Rightarrow> history" where
  "listen c h = h\<lparr>listener := Some c\<rparr>"

text \<open>\<open>teardown\<close> calls every cleanup function, empties the list and resets the routes.\<close>

definition teardown :: "history \<Rightarrow> history" where
  "teardown h = (call_each (listeners h) [] h)\<lparr>listeners := [], current := START, pending := None\<rparr>"

text \<open>\<open>this.pending !== route\<close> compares references.\<close>

definition pending_is :: "history \<Rightarrow> route \<Rightarrow> bool" where
  "pending_is h r = (case pending h of None \<Rightarrow> False | Some p \<Rightarrow> rid p = rid r)"

subsection \<open>\<open>transitionTo\<close>: the two closures handed to \<open>confirmTransition\<close>\<close>

text \<open>\<open>afterHooks.forEach(hook => { hook && hook(route, prev) })\<close>\<close>

fun run_afterHooks :: "cb option list \<Rightarrow> route \<Rightarrow> route \<Rightarrow> history \<Rightarrow> history" where
  "run_afterHooks [] r prev h = h"
| "run_afterHooks (None # hs) r prev h = run_afterHooks hs r prev h"
| "run_afterHooks (Some c # hs) r prev h =
     run_afterHooks hs r prev (emit (Call c [ARoute r, ARoute prev]) h)"

fun run_onComplete :: "on_complete \<Rightarrow> route \<Rightarrow> history \<Rightarrow> history" where
  "run_onComplete (CompleteCb c) r h = emit (Call c [ARoute r]) h"
| "run_onComplete (TransitionComplete onComplete prev) r h =
     (let h1 = updateRoute r h;
          h2 = (case onComplete of Some c \<Rightarrow> emit (Call c [ARoute r]) h1 | None \<Rightarrow> h1);
          h3 = emit (EnsureURL False) h2;
          h4 = run_afterHooks (afterHooks h3) r prev h3
      in if \<not> ready h4
         then call_each (readyCbs h4) [ARoute r] (h4\<lparr>ready := True\<rparr>)
         else h4)"

fun run_onAbort :: "on_abort \<Rightarrow> jsval \<Rightarrow> history \<Rightarrow> history" where
  "run_onAbort (AbortCb c) err h = emit (Call c [AVal err]) h"
| "run_onAbort (TransitionAbort onAbort prev) err h =
     (let h1 = (case onAbort of Some c \<Rightarrow> emit (Call c [AVal err]) h | None \<Rightarrow> h)
      in if truthy err \<and> \<not> ready h1
         then (if \<not> isNavigationFailure err (Some redirected) \<or> rid prev \<noteq> rid START
               then call_each (readyErrorCbs h1) [AVal err] (h1\<lparr>ready := True\<rparr>)
               else h1)
         else h1)"

subsection \<open>\<open>confirmTransition\<close>: \<open>abort\<close>, the iterator and the queues\<close>

definition abort :: "on_abort option \<Rightarrow> jsval \<Rightarrow> history \<Rightarrow> history" where
  "abort onAbort err h =
     (let h1 = (if \<not> isNavigationFailure err None \<and> isError err
                then (if errorCbs h \<noteq> []
                      then call_each (errorCbs h) [AVal err] h
                      else emit (ConsoleError err)
                             (emit (Warn ''uncaught error during route navigation:'') h))
                else h)
      in case onAbort of None \<Rightarrow> h1 | Some k \<Rightarrow> run_onAbort k err h1)"

text \<open>
  The function \<open>(to) => { ... }\<close> that the iterator hands to a hook as its \<open>next\<close>.
  \<open>nxt\<close> is the \<open>next\<close> of the queue runner. Reading \<open>to.path\<close> throws on \<open>null\<close>;
  the exception leaves the function (\<open>Some e\<close> in the result).
\<close>

definition redirect :: "nav \<Rightarrow> jsval \<Rightarrow> history \<Rightarrow> history" where
  "redirect n to h =
     (let h1 = abort (n_onAbort n) (createNavigationRedirectedError (n_current n) (n_route n)) h
      in if typeof to = ''object'' \<and> (case get_prop to ''replace'' of Inr v \<Rightarrow> truthy v | Inl e \<Rightarrow> False)
         then emit (Replace to) h1
         else emit (Push to) h1)"

definition iter_next :: "nav \<Rightarrow> (history \<Rightarrow> res) \<Rightarrow> jsval \<Rightarrow> history \<Rightarrow> res" where
  "iter_next n nxt to h =
     (if to = JBool False
      then (abort (n_onAbort n) (createNavigationAbortedError (n_current n) (n_route n))
              (emit (EnsureURL True) h), None)
      else if isError to
      then (abort (n_onAbort n) to (emit (EnsureURL True) h), None)
      else if typeof to = ''string'' then (redirect n to h, None)
      else if typeof to = ''object''
      then (case get_prop to ''path'' of
              Inl e \<Rightarrow> (h, Some e)
            | Inr p \<Rightarrow>
                if typeof p = ''string'' then (redirect n to h, None)
                else (case get_prop to ''name'' of
                        Inl e \<Rightarrow> (h, Some e)
                      | Inr nm \<Rightarrow>
                          if typeof nm = ''string'' then (redirect n to h, None)
                          else nxt h))
      else nxt h)"

text \<open>
  \<open>bindEnterGuard\<close>: the \<open>next\<close> that \<open>routeEnterGuard\<close> hands to the user's guard
  stores a function value in \<open>match.enteredCbs[key]\<close> and passes the value on.
\<close>

definition push_enteredCb :: "ref \<Rightarrow> string \<Rightarrow> jsval \<Rightarrow> history \<Rightarrow> history" where
  "push_enteredCb m key c h =
     (let r = records h m;
          old = (case map_of (enteredCbs r) key of None \<Rightarrow> [] | Some cs \<Rightarrow> cs)
      in h\<lparr>records := (records h)(m := r\<lparr>enteredCbs := AList.update key (old @ [c]) (enteredCbs r)\<rparr>)\<rparr>)"

definition enter_next :: "ref \<Rightarrow> string \<Rightarrow> (jsval \<Rightarrow> history \<Rightarrow> res) \<Rightarrow> jsval \<Rightarrow> history \<Rightarrow> res" where
  "enter_next m key nxt c h =
     nxt c (if typeof c = ''function'' then push_enteredCb m key c h else h)"

text \<open>Calling a user guard with \<open>next\<close>; \<open>w\<close> is what is left behind when it suspends.\<close>

fun run_guard :: "guard \<Rightarrow> susp \<Rightarrow> (jsval \<Rightarrow> history \<Rightarrow> res) \<Rightarrow> history \<Rightarrow> res" where
  "run_guard (Guard g (CallsNext v)) w nxt h = nxt v h"
| "run_guard (Guard g (Throws e)) w nxt h = (h, Some e)"
| "run_guard (Guard g Suspends) w nxt h = (h\<lparr>waiting := waiting h @ [w]\<rparr>, None)"

subsection \<open>The step of \<open>resolveAsyncComponents\<close>\<close>

definition get_step :: "history \<Rightarrow> nat \<Rightarrow> step" where
  "get_step h sid = steps h ! sid"

definition set_step :: "nat \<Rightarrow> step \<Rightarrow> history \<Rightarrow> history" where
  "set_step sid st h = h\<lparr>steps := (steps h)[sid := st]\<rparr>"

text \<open>
  The body of \<open>resolve\<close> under \<open>once\<close>: a second call returns at once. Otherwise the
  resolved definition replaces the factory in the record, the counter goes down, and
  \<open>next()\<close> is called when it is at or below zero. The definition is given as it is
  after the unwrapping of an ES module; the copy that is stored on the factory
  (\<open>def.resolved\<close>) is left out, the engine never reads it.
\<close>

definition resolve_cb ::
  "nat \<Rightarrow> ref \<Rightarrow> string \<Rightarrow> (jsval \<Rightarrow> history \<Rightarrow> res) \<Rightarrow> comp_def \<Rightarrow> history \<Rightarrow> res" where
  "resolve_cb sid m key nxt resolvedDef h =
     (let st = get_step h sid
      in if (m, key) \<in> set (st_resolve_called st) then (h, None)
         else (let st1 = st\<lparr>st_resolve_called := (m, key) # st_resolve_called st\<rparr>;
                   r = records h m;
                   h1 = h\<lparr>records := (records h)
                           (m := r\<lparr>components := AList.update key (Resolved resolvedDef) (components r)\<rparr>)\<rparr>;
                   st2 = st1\<lparr>st_pending := st_pending st1 - 1\<rparr>;
                   h2 = set_step sid st2 h1
               in if st_pending st2 \<le> 0 then nxt JUndefined h2 else (h2, None)))"

text \<open>
  The body of \<open>reject\<close> under \<open>once\<close>: outside production the message made of
  the key and the reason is printed (\<open>WarnResolve\<close>); the first rejection of the step
  sets \<open>error\<close> and calls \<open>next(error)\<close>.
\<close>

definition reject_cb ::
  "nat \<Rightarrow> ref \<Rightarrow> string \<Rightarrow> (jsval \<Rightarrow> history \<Rightarrow> res) \<Rightarrow> jsval \<Rightarrow> history \<Rightarrow> res" where
  "reject_cb sid m key nxt reason h =
     (let st = get_step h sid
      in if (m, key) \<in> set (st_reject_called st) then (h, None)
         else (let st1 = st\<lparr>st_reject_called := (m, key) # st_reject_called st\<rparr>;
                   h1 = set_step sid st1 h;
                   h2 = (if \<not> production h1
                         then emit (WarnResolve key reason) h1
                         else h1)
               in case st_error st1 of
                    Some e \<Rightarrow> (h2, None)
                  | None \<Rightarrow>
                      (let err = (if isError reason then reason else JResolveError key reason)
                       in nxt err (set_step sid (st1\<lparr>st_error := Some err\<rparr>) h2))))"

text \<open>
  The calls a factory makes before it returns. An exception thrown inside \<open>resolve\<close> or
  \<open>reject\<close> (by the rest of the pipeline, which runs inside \<open>next\<close>) passes through
  the factory and ends its run.
\<close>

fun run_calls ::
  "factory_call list \<Rightarrow> nat \<Rightarrow> ref \<Rightarrow> string \<Rightarrow> (jsval \<Rightarrow> history \<Rightarrow> res) \<Rightarrow> history \<Rightarrow> res" where
  "run_calls [] sid m key nxt h = (h, None)"
| "run_calls (CallResolve d # cs) sid m key nxt h =
     (case resolve_cb sid m key nxt d h of
        (h1, Some e) \<Rightarrow> (h1, Some e)
      | (h1, None) \<Rightarrow> run_calls cs sid m key nxt h1)"
| "run_calls (CallReject r # cs) sid m key nxt h =
     (case reject_cb sid m key nxt r h of
        (h1, Some e) \<Rightarrow> (h1, Some e)
      | (h1, None) \<Rightarrow> run_calls cs sid m key nxt h1)"

text \<open>
  The function given to \<open>flatMapComponents\<close>, for one slot: only a function without
  \<open>cid\<close> is an async factory. \<open>try { res = def(resolve, reject) } catch (e) { reject(e) }\<close>.
\<close>

definition resolve_slot ::
  "nat \<Rightarrow> (jsval \<Rightarrow> history \<Rightarrow> res) \<Rightarrow> ref \<Rightarrow> string \<Rightarrow> history \<Rightarrow> res" where
  "resolve_slot sid nxt m key h =
     (case map_of (components (records h m)) key of
        Some (AsyncFactory (Factory f calls thrown)) \<Rightarrow>
          (let st = get_step h sid;
               h1 = set_step sid (st\<lparr>st_hasAsync := True, st_pending := st_pending st + 1,
                                      st_slots := (m, key) # st_slots st\<rparr>) h
           in case run_calls calls sid m key nxt h1 of
                (h2, Some e) \<Rightarrow> reject_cb sid m key nxt e h2
              | (h2, None) \<Rightarrow>
                  (case thrown of
                     Some e \<Rightarrow> reject_cb sid m key nxt e h2
                   | None \<Rightarrow> (h2, None)))
      | _ \<Rightarrow> (h, None))"

text \<open>The slots in the order of \<open>flatMapComponents\<close>; an exception ends the loop.\<close>

fun resolve_slots ::
  "(ref \<times> string) list \<Rightarrow> nat \<Rightarrow> (jsval \<Rightarrow> history \<Rightarrow> res) \<Rightarrow> history \<Rightarrow> res" where
  "resolve_slots [] sid nxt h = (h, None)"
| "resolve_slots ((m, key) # ss) sid nxt h =
     (case resolve_slot sid nxt m key h of
        (h1, Some e) \<Rightarrow> (h1, Some e)
      | (h1, None) \<Rightarrow> resolve_slots ss sid nxt h1)"

text \<open>\<open>Object.keys(m.components)\<close> of each record of \<open>matched\<close>, in order.\<close>

definition slots_of :: "history \<Rightarrow> ref list \<Rightarrow> (ref \<times> string) list" where
  "slots_of h ms = concat (map (\<lambda>m. map (\<lambda>key. (m, key)) (map fst (components (records h m)))) ms)"

definition new_step :: "nav \<Rightarrow> phase \<Rightarrow> hook option list \<Rightarrow> step" where
  "new_step n ph rest =
     \<lparr> st_nav = n, st_phase = ph, st_rest = rest, st_hasAsync = False, st_pending = 0,
       st_error = None, st_slots = [], st_resolve_called = [], st_reject_called = [] \<rparr>"

definition resolveAsyncComponents ::
  "ref list \<Rightarrow> nav \<Rightarrow> phase \<Rightarrow> hook option list \<Rightarrow> (jsval \<Rightarrow> history \<Rightarrow> res) \<Rightarrow> history \<Rightarrow> res" where
  "resolveAsyncComponents ms n ph rest nxt h =
     (let sid = length (steps h);
          h1 = h\<lparr>steps := steps h @ [new_step n ph rest]\<rparr>
      in case resolve_slots (slots_of h1 ms) sid nxt h1 of
           (h2, Some e) \<Rightarrow> (h2, Some e)
         | (h2, None) \<Rightarrow>
             if \<not> st_hasAsync (get_step h2 sid) then nxt JUndefined h2 else (h2, None))"

subsection \<open>Guard extraction\<close>

text \<open>
  \<open>flatten\<close> is \<open>Array.prototype.concat.apply([], arr)\<close>: an element that is an
  array is spread, one level deep; any other element is appended as it is.
\<close>

datatype 'a item = Item 'a | Arr "'a list"

fun flatten :: "'a item list \<Rightarrow> 'a list" where
  "flatten [] = []"
| "flatten (Item x # xs) = x # flatten xs"
| "flatten (Arr ys # xs) = ys @ flatten xs"

definition flatMapComponents ::
  "(ref \<Rightarrow> route_record) \<Rightarrow> ref list \<Rightarrow> (component \<Rightarrow> nat option \<Rightarrow> ref \<Rightarrow> string \<Rightarrow> 'a) \<Rightarrow> 'a list" where
  "flatMapComponents recs ms fn =
     flatten (map (\<lambda>m. Arr (map (\<lambda>(key, def). fn def (map_of (instances (recs m)) key) m key)
                                 (components (recs m)))) ms)"

text \<open>
  \<open>extractGuard\<close>: a definition is extended and its option read; a function without
  \<open>options\<close> (an async factory that is not resolved) makes \<open>def.options[key]\<close> throw.
\<close>

fun extractGuard :: "component \<Rightarrow> hook_name \<Rightarrow> jsval + guards" where
  "extractGuard (Resolved d) name = Inr (option_of d name)"
| "extractGuard (AsyncFactory f) name = Inl (JError ''TypeError'')"

text \<open>The first exception among the results of a \<open>map\<close> is the one that is thrown.\<close>

fun first_error :: "('e + 'a) list \<Rightarrow> 'e + 'a list" where
  "first_error [] = Inr []"
| "first_error (Inl e # xs) = Inl e"
| "first_error (Inr x # xs) = (case first_error xs of Inl e \<Rightarrow> Inl e | Inr ys \<Rightarrow> Inr (x # ys))"

definition slot_guards ::
  "hook_name \<Rightarrow> (guard \<Rightarrow> nat option \<Rightarrow> ref \<Rightarrow> string \<Rightarrow> hook option)
     \<Rightarrow> component \<Rightarrow> nat option \<Rightarrow> ref \<Rightarrow> string \<Rightarrow> jsval + hook option item" where
  "slot_guards name bind def instance m key =
     (case extractGuard def name of
        Inl e \<Rightarrow> Inl e
      | Inr NoGuard \<Rightarrow> Inr (Item None)
      | Inr (OneGuard g) \<Rightarrow> Inr (Item (bind g instance m key))
      | Inr (GuardArray gs) \<Rightarrow> Inr (Arr (map (\<lambda>g. bind g instance m key) gs)))"

definition extractGuards ::
  "(ref \<Rightarrow> route_record) \<Rightarrow> ref list \<Rightarrow> hook_name
     \<Rightarrow> (guard \<Rightarrow> nat option \<Rightarrow> ref \<Rightarrow> string \<Rightarrow> hook option) \<Rightarrow> bool \<Rightarrow> jsval + hook option list" where
  "extractGuards recs rs name bind reverse =
     (case first_error (flatMapComponents recs rs (slot_guards name bind)) of
        Inl e \<Rightarrow> Inl e
      | Inr gs \<Rightarrow> Inr (flatten (if reverse then rev gs else gs)))"

definition bindGuard :: "guard \<Rightarrow> nat option \<Rightarrow> ref \<Rightarrow> string \<Rightarrow> hook option" where
  "bindGuard g instance m key =
     (case instance of Some i \<Rightarrow> Some (BoundRouteGuard g i) | None \<Rightarrow> None)"

definition bindEnterGuard :: "guard \<Rightarrow> ref \<Rightarrow> string \<Rightarrow> hook" where
  "bindEnterGuard g m key = RouteEnterGuard g m key"

definition extractLeaveGuards :: "(ref \<Rightarrow> route_record) \<Rightarrow> ref list \<Rightarrow> jsval + hook option list" where
  "extractLeaveGuards recs deact = extractGuards recs deact beforeRouteLeave bindGuard True"

definition extractUpdateHooks :: "(ref \<Rightarrow> route_record) \<Rightarrow> ref list \<Rightarrow> jsval + hook option list" where
  "extractUpdateHooks recs upd = extractGuards recs upd beforeRouteUpdate bindGuard False"

definition extractEnterGuards :: "(ref \<Rightarrow> route_record) \<Rightarrow> ref list \<Rightarrow> jsval + hook option list" where
  "extractEnterGuards recs act =
     extractGuards recs act beforeRouteEnter (\<lambda>g i m key. Some (bindEnterGuard g m key)) False"

subsection \<open>The queue runner and the iterator\<close>

text \<open>
  Modelled from the spec: \<open>runQueue\<close> of \<open>util/async\<close> is not among the sources.
  Section 4.4 of the spec: the entries are run strictly in order through
  \<open>iterator(step, next)\<close>, a null entry is passed over, and the completion callback is
  called when the queue is exhausted. The iterator also learns which entries come after
  the one it runs, so that a suspended guard can be continued.
\<close>

fun runQueue ::
  "hook option list \<Rightarrow> (hook \<Rightarrow> hook option list \<Rightarrow> (history \<Rightarrow> res) \<Rightarrow> history \<Rightarrow> res)
     \<Rightarrow> (history \<Rightarrow> res) \<Rightarrow> history \<Rightarrow> res" where
  "runQueue [] fn cb h = cb h"
| "runQueue (None # q) fn cb h = runQueue q fn cb h"
| "runQueue (Some hk # q) fn cb h = fn hk q (\<lambda>h'. runQueue q fn cb h') h"

text \<open>
  The \<open>next\<close> that a hook of the queue receives: the iterator's function, wrapped by
  \<open>routeEnterGuard\<close> for an enter guard.
\<close>

definition hook_next :: "nav \<Rightarrow> hook \<Rightarrow> (history \<Rightarrow> res) \<Rightarrow> jsval \<Rightarrow> history \<Rightarrow> res" where
  "hook_next n hk nxt =
     (case hk of
        RouteEnterGuard g m key \<Rightarrow> enter_next m key (iter_next n nxt)
      | _ \<Rightarrow> iter_next n nxt)"

definition call_hook ::
  "nav \<Rightarrow> phase \<Rightarrow> hook \<Rightarrow> hook option list \<Rightarrow> (history \<Rightarrow> res) \<Rightarrow> history \<Rightarrow> res" where
  "call_hook n ph hk rest nxt h =
     (case hk of
        GlobalHook g \<Rightarrow> run_guard g (Susp n hk ph rest) (hook_next n hk nxt) h
      | BoundRouteGuard g i \<Rightarrow> run_guard g (Susp n hk ph rest) (hook_next n hk nxt) h
      | RouteEnterGuard g m key \<Rightarrow> run_guard g (Susp n hk ph rest) (hook_next n hk nxt) h
      | ResolveAsync ms \<Rightarrow> resolveAsyncComponents ms n ph rest (hook_next n hk nxt) h)"

text \<open>\<open>try { hook(route, current, ...) } catch (e) { abort(e) }\<close>\<close>

definition iterator ::
  "nav \<Rightarrow> phase \<Rightarrow> hook \<Rightarrow> hook option list \<Rightarrow> (history \<Rightarrow> res) \<Rightarrow> history \<Rightarrow> res" where
  "iterator n ph hk rest nxt h =
     (if \<not> pending_is h (n_route n)
      then (abort (n_onAbort n) (createNavigationCancelledError (n_current n) (n_route n)) h, None)
      else (case call_hook n ph hk rest nxt (emit (RunHook hk) h) of
              (h1, Some e) \<Rightarrow> (abort (n_onAbort n) e h1, None)
            | (h1, None) \<Rightarrow> (h1, None)))"

text \<open>The completion callback of the second queue.\<close>

definition complete :: "nav \<Rightarrow> history \<Rightarrow> res" where
  "complete n h =
     (if \<not> pending_is h (n_route n)
      then (abort (n_onAbort n) (createNavigationCancelledError (n_current n) (n_route n)) h, None)
      else (let h1 = h\<lparr>pending := None\<rparr>;
                h2 = run_onComplete (n_onComplete n) (n_route n) h1
            in (if app h2 then emit (NextTick (n_route n)) h2 else h2, None)))"

definition global_hooks :: "guard option list \<Rightarrow> hook option list" where
  "global_hooks gs = map (map_option GlobalHook) gs"

definition second_queue :: "history \<Rightarrow> nav \<Rightarrow> jsval + hook option list" where
  "second_queue h n =
     (case extractEnterGuards (records h) (n_activated n) of
        Inl e \<Rightarrow> Inl e
      | Inr enterGuards \<Rightarrow> Inr (enterGuards @ global_hooks (resolveHooks h)))"

text \<open>The completion callback of the first queue.\<close>

definition first_done :: "nav \<Rightarrow> history \<Rightarrow> res" where
  "first_done n h =
     (case second_queue h n of
        Inl e \<Rightarrow> (h, Some e)
      | Inr queue \<Rightarrow> runQueue queue (iterator n Second) (complete n) h)"

text \<open>The queue runner's \<open>next\<close> after an entry: the entries after it, then the callback.\<close>

fun run_rest :: "nav \<Rightarrow> phase \<Rightarrow> hook option list \<Rightarrow> history \<Rightarrow> res" where
  "run_rest n First rest h = runQueue rest (iterator n First) (first_done n) h"
| "run_rest n Second rest h = runQueue rest (iterator n Second) (complete n) h"

definition first_queue :: "history \<Rightarrow> diff \<Rightarrow> jsval + hook option list" where
  "first_queue h d =
     (case extractLeaveGuards (records h) (deactivated d) of
        Inl e \<Rightarrow> Inl e
      | Inr leave \<Rightarrow>
          (case extractUpdateHooks (records h) (updated d) of
             Inl e \<Rightarrow> Inl e
           | Inr upd \<Rightarrow>
               Inr (leave @ global_hooks (beforeHooks h) @ upd
                    @ map (\<lambda>m. map_option GlobalHook (beforeEnter (records h m))) (activated d)
                    @ [Some (ResolveAsync (activated d))])))"

definition confirmTransition :: "route \<Rightarrow> on_complete \<Rightarrow> on_abort option \<Rightarrow> history \<Rightarrow> res" where
  "confirmTransition r onComplete onAbort h0 =
     (let cur = current h0;
          h = h0\<lparr>pending := Some r\<rparr>;
          lastRouteIndex = minus_one (array_prop (matched r) ''length'');
          lastCurrentIndex = minus_one (array_prop (matched cur) lengt_h)
      in if isSameRoute r cur \<and> strict_eq lastRouteIndex lastCurrentIndex
            \<and> array_at (matched r) lastRouteIndex = array_at (matched cur) lastCurrentIndex
         then (abort onAbort (createNavigationDuplicatedError cur r) (emit (EnsureURL False) h), None)
         else (let d = resolveQueue (matched (current h)) (matched r);
                   n = \<lparr> n_route = r, n_current = cur, n_activated = activated d,
                         n_onComplete = onComplete, n_onAbort = onAbort \<rparr>
               in case first_queue h d of
                    Inl e \<Rightarrow> (h, Some e)
                  | Inr queue \<Rightarrow> runQueue queue (iterator n First) (first_done n) h))"

text \<open>
  \<open>transitionTo\<close>. The matcher is outside the engine: its outcome for the location, a
  route or the exception it raised, is the first argument.
\<close>

definition transitionTo :: "jsval + route \<Rightarrow> cb option \<Rightarrow> cb option \<Rightarrow> history \<Rightarrow> res" where
  "transitionTo mtch onComplete onAbort h =
     (case mtch of
        Inl e \<Rightarrow> (call_each (errorCbs h) [AVal e] h, Some e)
      | Inr r \<Rightarrow>
          confirmTransition r (TransitionComplete onComplete (current h))
            (Some (TransitionAbort onAbort (current h))) h)"

subsection \<open>What the environment does later\<close>

text \<open>
  A suspended guard calls its \<open>next\<close> with a value: \<open>resume i v\<close> for the entry \<open>i\<close> of
  \<open>waiting\<close>. No \<open>try\<close> of the engine is on the stack then, an exception goes to the
  caller.
\<close>

definition resume :: "nat \<Rightarrow> jsval \<Rightarrow> history \<Rightarrow> res" where
  "resume i v h =
     (case js_index (waiting h) i of
        None \<Rightarrow> (h, None)
      | Some (Susp n hk ph rest) \<Rightarrow> hook_next n hk (run_rest n ph rest) v h)"

text \<open>
  A factory of step \<open>sid\<close> calls the \<open>resolve\<close> or the \<open>reject\<close> it was given for the
  slot \<open>(m, key)\<close>, after the step has returned.
\<close>

definition step_next :: "history \<Rightarrow> nat \<Rightarrow> jsval \<Rightarrow> history \<Rightarrow> res" where
  "step_next h sid =
     (let st = get_step h sid
      in iter_next (st_nav st) (run_rest (st_nav st) (st_phase st) (st_rest st)))"

definition settle :: "nat \<Rightarrow> ref \<Rightarrow> string \<Rightarrow> jsval + comp_def \<Rightarrow> history \<Rightarrow> res" where
  "settle sid m key outcome h =
     (if sid < length (steps h) \<and> (m, key) \<in> set (st_slots (get_step h sid))
      then (case outcome of
              Inr d \<Rightarrow> resolve_cb sid m key (step_next h sid) d h
            | Inl reason \<Rightarrow> reject_cb sid m key (step_next h sid) reason h)
      else (h, None))"

subsection \<open>A new engine\<close>

definition empty_record :: route_record where
  "empty_record = \<lparr> components = [], instances = [], enteredCbs = [], beforeEnter = None \<rparr>"

text \<open>The constructor of \<open>History\<close>, with a router that has no hooks and no app yet.\<close>

definition new_history :: history where
  "new_history =
     \<lparr> current = START, pending = None, ready = False, readyCbs = [], readyErrorCbs = [],
       errorCbs = [], listener = None, listeners = [], beforeHooks = [], resolveHooks = [], afterHooks = [],
       app = False, production = False, records = (\<lambda>m. empty_record), waiting = [],
       steps = [], trace = [] \<rparr>"

subsection \<open>Example data\<close>

definition routeA :: route where
  "routeA = \<lparr> rid = 1, path = ''/a'', hash = [], query = [], params = [], fullPath = ''/a'',
              matched = [1] \<rparr>"

definition enter_guard0 :: guard where
  "enter_guard0 = Guard 7 (CallsNext (JFun 3))"

definition recordA :: route_record where
  "recordA = \<lparr> components = [(''default'', Resolved (Options (OneGuard enter_guard0) NoGuard NoGuard))],
               instances = [(''default'', 10)], enteredCbs = [], beforeEnter = None \<rparr>"

definition records0 :: "ref \<Rightarrow> route_record" where
  "records0 = (\<lambda>m. empty_record)(1 := recordA)"

definition nav0 :: nav where
  "nav0 = \<lparr> n_route = routeA, n_current = START, n_activated = [1],
            n_onComplete = CompleteCb 1, n_onAbort = Some (AbortCb 2) \<rparr>"

definition routeA2 :: route where
  "routeA2 = routeA\<lparr>rid := 2\<rparr>"

definition routeB :: route where
  "routeB = \<lparr> rid = 3, path = ''/b'', hash = [], query = [], params = [], fullPath = ''/b'',
              matched = [] \<rparr>"

text \<open>An engine whose current route is \<open>routeA\<close>.\<close>

definition history_at_A :: history where
  "history_at_A = new_history\<lparr>current := routeA, ready := True, records := records0\<rparr>"

subsection \<open>Vocabulary for the statements\<close>

text \<open>The hooks that were run, in order, as the trace has them.\<close>

fun runs_of :: "event list \<Rightarrow> hook list" where
  "runs_of [] = []"
| "runs_of (RunHook hk # es) = hk # runs_of es"
| "runs_of (e # es) = runs_of es"

definition hook_runs :: "history \<Rightarrow> hook list" where
  "hook_runs h = runs_of (trace h)"

text \<open>The entries of a queue that are not null.\<close>

fun somes :: "'a option list \<Rightarrow> 'a list" where
  "somes [] = []"
| "somes (None # xs) = somes xs"
| "somes (Some x # xs) = x # somes xs"

text \<open>
  The classes of values that the iterator's \<open>next\<close> tells apart: a redirect is a
  string, or an object whose \<open>path\<close> or \<open>name\<close> is a string; a value proceeds when it
  is not \<open>false\<close>, not an \<open>Error\<close>, not \<open>null\<close> and not a redirect.
\<close>

definition is_redirect :: "jsval \<Rightarrow> bool" where
  "is_redirect to \<longleftrightarrow>
     typeof to = ''string''
     \<or> (typeof to = ''object''
         \<and> ((case get_prop to ''path'' of Inr p \<Rightarrow> typeof p = ''string'' | Inl e \<Rightarrow> False)
            \<or> (case get_prop to ''name'' of Inr p \<Rightarrow> typeof p = ''string'' | Inl e \<Rightarrow> False)))"

definition proceeds :: "jsval \<Rightarrow> bool" where
  "proceeds to \<longleftrightarrow> to \<noteq> JBool False \<and> \<not> isError to \<and> to \<noteq> JNull \<and> \<not> is_redirect to"

text \<open>
  \<open>quiet h h'\<close>: from \<open>h\<close> to \<open>h'\<close> no hook was run and nothing was committed: the
  same hooks have run, \<open>current\<close> and \<open>pending\<close> are as they were.
\<close>

definition quiet :: "history \<Rightarrow> history \<Rightarrow> bool" where
  "quiet h h' \<longleftrightarrow> hook_runs h' = hook_runs h \<and> current h' = current h \<and> pending h' = pending h"

text \<open>
  A navigation to \<open>routeA\<close> that is suspended in a global guard, and a second navigation
  to \<open>routeB\<close> that started meanwhile and is suspended in the same guard.
\<close>

definition nav1 :: nav where
  "nav1 = \<lparr> n_route = routeA, n_current = START, n_activated = [1],
            n_onComplete = TransitionComplete None START,
            n_onAbort = Some (TransitionAbort (Some 9) START) \<rparr>"

definition suspended_example :: history where
  "suspended_example =
     fst (transitionTo (Inr routeA) None (Some 9)
            (new_history\<lparr>records := records0, beforeHooks := [Some (Guard 5 Suspends)]\<rparr>))"

definition superseded_example :: history where
  "superseded_example = fst (transitionTo (Inr routeB) None (Some 8) suspended_example)"

text \<open>
  A record whose view is an async factory that neither calls back nor throws before it
  returns; a navigation to it, waiting for the factory; and the same engine after a
  second navigation, to \<open>routeB\<close>, has started and is suspended in a global guard.
\<close>

definition recordC :: route_record where
  "recordC = \<lparr> components = [(''default'', AsyncFactory (Factory 1 [] None))],
               instances = [], enteredCbs = [], beforeEnter = None \<rparr>"

definition records1 :: "ref \<Rightarrow> route_record" where
  "records1 = (\<lambda>m. empty_record)(1 := recordA, 2 := recordC)"

definition routeC :: route where
  "routeC = \<lparr> rid = 4, path = ''/c'', hash = [], query = [], params = [], fullPath = ''/c'',
              matched = [2] \<rparr>"

definition navC :: nav where
  "navC = \<lparr> n_route = routeC, n_current = START, n_activated = [2],
            n_onComplete = TransitionComplete None START,
            n_onAbort = Some (TransitionAbort (Some 9) START) \<rparr>"

definition lazy_example :: history where
  "lazy_example = fst (transitionTo (Inr routeC) None (Some 9) (new_history\<lparr>records := records1\<rparr>))"

definition lazy_superseded :: history where
  "lazy_superseded =
     fst (transitionTo (Inr routeB) None (Some 8)
            (lazy_example\<lparr>beforeHooks := [Some (Guard 5 Suspends)]\<rparr>))"

definition plain_def :: comp_def where
  "plain_def = Options NoGuard NoGuard NoGuard"

text \<open>
  A hook \<open>passes\<close> when it lets the queue go on before it returns: a user guard that
  calls \<open>next\<close> with a value that proceeds, or the resolve step when no slot of its
  records holds an async factory.
\<close>

fun is_async :: "component \<Rightarrow> bool" where
  "is_async (AsyncFactory f) = True"
| "is_async (Resolved d) = False"

definition no_async :: "history \<Rightarrow> ref list \<Rightarrow> bool" where
  "no_async h ms = list_all (\<lambda>m. list_all (\<lambda>(key, c). \<not> is_async c) (components (records h m))) ms"

fun passes :: "history \<Rightarrow> hook \<Rightarrow> bool" where
  "passes h (GlobalHook (Guard g (CallsNext v))) = proceeds v"
| "passes h (BoundRouteGuard (Guard g (CallsNext v)) i) = proceeds v"
| "passes h (RouteEnterGuard (Guard g (CallsNext v)) m key) = proceeds v"
| "passes h (ResolveAsync ms) = no_async h ms"
| "passes h hk = False"


text \<open>
  A nested example: the current route has the chain of records \<open>[10, 11, 13]\<close> (a
  root, a child and a grandchild), the target has \<open>[10, 12]\<close> (the same root, another
  child). Every phase has a guard, and each guard calls \<open>next\<close> at once.
\<close>

definition nested_records :: "ref \<Rightarrow> route_record" where
  "nested_records = (\<lambda>m. empty_record)
     (10 := \<lparr> components = [(''default'',
                  Resolved (Options NoGuard (OneGuard (Guard 103 (CallsNext JUndefined))) NoGuard))],
              instances = [(''default'', 50)], enteredCbs = [], beforeEnter = None \<rparr>,
      11 := \<lparr> components = [(''default'',
                  Resolved (Options NoGuard NoGuard (OneGuard (Guard 101 (CallsNext JUndefined)))))],
              instances = [(''default'', 51)], enteredCbs = [], beforeEnter = None \<rparr>,
      12 := \<lparr> components = [(''default'',
                  Resolved (Options (OneGuard (Guard 105 (CallsNext (JFun 3)))) NoGuard NoGuard))],
              instances = [], enteredCbs = [],
              beforeEnter = Some (Guard 104 (CallsNext (JBool True))) \<rparr>,
      13 := \<lparr> components = [(''default'',
                  Resolved (Options NoGuard NoGuard (OneGuard (Guard 100 (CallsNext JUndefined)))))],
              instances = [(''default'', 53)], enteredCbs = [], beforeEnter = None \<rparr>)"

definition route_child :: route where
  "route_child = \<lparr> rid = 20, path = ''/root/child'', hash = [], query = [], params = [],
                   fullPath = ''/root/child'', matched = [10, 11, 13] \<rparr>"

definition route_child2 :: route where
  "route_child2 = \<lparr> rid = 21, path = ''/root/child2'', hash = [], query = [], params = [],
                    fullPath = ''/root/child2'', matched = [10, 12] \<rparr>"

definition nested_example :: history where
  "nested_example =
     new_history\<lparr>current := route_child, ready := True, records := nested_records,
                  beforeHooks := [Some (Guard 102 (CallsNext JUndefined))],
                  resolveHooks := [Some (Guard 106 (CallsNext JUndefined))]\<rparr>"

definition enter_def :: comp_def where
  "enter_def = Options (OneGuard enter_guard0) NoGuard NoGuard"


text \<open>The state in which the slot \<open>key\<close> of record \<open>m\<close> holds the resolved definition.\<close>

definition with_resolved :: "ref \<Rightarrow> string \<Rightarrow> comp_def \<Rightarrow> history \<Rightarrow> history" where
  "with_resolved m key d h =
     h\<lparr>records := (records h)
          (m := (records h m)\<lparr>components := AList.update key (Resolved d) (components (records h m))\<rparr>)\<rparr>"

text \<open>\<open>stays_ready h h'\<close>: if the engine is ready in \<open>h\<close>, it is ready in \<open>h'\<close>.\<close>

definition stays_ready :: "history \<Rightarrow> history \<Rightarrow> bool" where
  "stays_ready h h' \<longleftrightarrow> (ready h \<longrightarrow> ready h')"

text \<open>
  An engine with one queued ready callback and a global guard that calls
  \<open>next(false)\<close>; the same engine after a first navigation, which that guard aborts;
  and after a second navigation, made when the guard has been removed.
\<close>

definition refusing_example :: history where
  "refusing_example =
     onReady 7 (Some 8)
       (new_history\<lparr>records := records0,
                     beforeHooks := [Some (Guard 5 (CallsNext (JBool False)))]\<rparr>)"

definition refused_example :: history where
  "refused_example = fst (transitionTo (Inr routeA) None None refusing_example)"

definition refused_then_done :: history where
  "refused_then_done =
     fst (transitionTo (Inr routeA2) None None (refused_example\<lparr>beforeHooks := []\<rparr>))"

text \<open>An engine with queued ready callbacks and a global guard that throws \<open>undefined\<close>.\<close>

definition throwing_example :: history where
  "throwing_example =
     onReady 7 (Some 8)
       (new_history\<lparr>records := records0, beforeHooks := [Some (Guard 5 (Throws JUndefined))]\<rparr>)"

text \<open>
  The slots of the resolve step that hold an async factory, in the order of the step;
  and the condition that no factory among the slots calls back or throws before it
  returns.
\<close>

definition slot_is_async :: "history \<Rightarrow> ref \<Rightarrow> string \<Rightarrow> bool" where
  "slot_is_async h m key =
     (case map_of (components (records h m)) key of Some c \<Rightarrow> is_async c | None \<Rightarrow> False)"


definition slot_returns :: "history \<Rightarrow> ref \<Rightarrow> string \<Rightarrow> bool" where
  "slot_returns h m key =
     (case map_of (components (records h m)) key of
        Some (AsyncFactory (Factory f calls thrown)) \<Rightarrow> calls = [] \<and> thrown = None
      | _ \<Rightarrow> True)"

text \<open>
  The navigation of \<open>lazy_example\<close> after its factory has rejected with an \<open>Error\<close>.
\<close>

definition rejected_example :: history where
  "rejected_example = fst (settle 0 2 ''default'' (Inl (JError ''load failed'')) lazy_example)"

text \<open>
  A record with two views, both async factories that return without calling back; a
  navigation to it, waiting for both; and the same navigation after the factory of the
  view \<open>side\<close> has rejected with a reason that is not an \<open>Error\<close>.
\<close>

definition recordD :: route_record where
  "recordD = \<lparr> components = [(''default'', AsyncFactory (Factory 1 [] None)),
                             (''side'', AsyncFactory (Factory 2 [] None))],
               instances = [], enteredCbs = [], beforeEnter = None \<rparr>"

definition routeD :: route where
  "routeD = \<lparr> rid = 5, path = ''/d'', hash = [], query = [], params = [], fullPath = ''/d'',
              matched = [3] \<rparr>"

definition navD :: nav where
  "navD = \<lparr> n_route = routeD, n_current = START, n_activated = [3],
            n_onComplete = TransitionComplete None START,
            n_onAbort = Some (TransitionAbort (Some 9) START) \<rparr>"

definition two_lazy_start :: history where
  "two_lazy_start = new_history\<lparr>records := (\<lambda>m. empty_record)(3 := recordD)\<rparr>"

definition two_lazy_example :: history where
  "two_lazy_example = fst (transitionTo (Inr routeD) None (Some 9) two_lazy_start)"

definition two_failed_example :: history where
  "two_failed_example = fst (settle 0 3 ''side'' (Inl (JStr ''boom'')) two_lazy_example)"


subsection \<open>Properties of the transition diff\<close>

lemma scan_ge: "i \<le> scan a b i"
proof (induction a b i rule: scan.induct)
  case (1 a b i)
  then show ?case by (subst scan.simps) (auto simp: Suc_leD)
qed

lemma scan_le: "i \<le> max (length a) (length b) \<Longrightarrow> scan a b i \<le> max (length a) (length b)"
proof (induction a b i rule: scan.induct)
  case (1 a b i)
  then show ?case by (subst scan.simps) auto
qed

lemma scan_agree: "i \<le> j \<Longrightarrow> j < scan a b i \<Longrightarrow> js_index a j = js_index b j"
proof (induction a b i rule: scan.induct)
  case (1 a b i)
  show ?case
  proof (cases "i < max (length a) (length b) \<and> js_index a i = js_index b i")
    case True
    then have eq: "scan a b i = scan a b (i + 1)"
      by (subst scan.simps) simp
    show ?thesis
    proof (cases "j = i")
      case True
      with \<open>i < max (length a) (length b) \<and> js_index a i = js_index b i\<close> show ?thesis by simp
    next
      case False
      with "1.prems" have "i + 1 \<le> j" by simp
      moreover from "1.prems" eq have "j < scan a b (i + 1)" by simp
      ultimately show ?thesis using "1.IH" True by simp
    qed
  next
    case False
    then have "scan a b i = i" by (subst scan.simps) auto
    with "1.prems" show ?thesis by simp
  qed
qed

lemma scan_stop:
  "scan a b i < max (length a) (length b) \<Longrightarrow> js_index a (scan a b i) \<noteq> js_index b (scan a b i)"
proof (induction a b i rule: scan.induct)
  case (1 a b i)
  show ?case
  proof (cases "i < max (length a) (length b) \<and> js_index a i = js_index b i")
    case True
    then have eq: "scan a b i = scan a b (i + 1)"
      by (subst scan.simps) simp
    with "1.IH" "1.prems" True show ?thesis by simp
  next
    case False
    then have eq: "scan a b i = i" by (subst scan.simps) auto
    with "1.prems" False show ?thesis by simp
  qed
qed

lemma scan_min: "scan a b 0 \<le> length a \<and> scan a b 0 \<le> length b"
proof -
  let ?i = "scan a b 0"
  have agree: "\<And>j. j < ?i \<Longrightarrow> js_index a j = js_index b j"
    using scan_agree [of 0 _ a b] by simp
  have bound: "?i \<le> max (length a) (length b)"
    using scan_le [of 0 a b] by simp
  show ?thesis
  proof (cases "length a = length b")
    case True
    with bound show ?thesis by simp
  next
    case False
    let ?m = "min (length a) (length b)"
    have "js_index a ?m \<noteq> js_index b ?m"
      using False by (auto simp: js_index_def min_def)
    then have "\<not> ?m < ?i" using agree by blast
    then have "?i \<le> ?m" by (rule leI)
    then show ?thesis by simp
  qed
qed

lemma scan_prefix: "take (scan a b 0) a = take (scan a b 0) b"
proof (rule nth_equalityI)
  show "length (take (scan a b 0) a) = length (take (scan a b 0) b)"
    using scan_min [of a b] by simp
next
  fix j assume "j < length (take (scan a b 0) a)"
  then have j: "j < scan a b 0" "j < length a" by simp_all
  with scan_min [of a b] have jb: "j < length b" by simp
  from scan_agree [of 0 j a b] j have "js_index a j = js_index b j" by simp
  with j jb show "take (scan a b 0) a ! j = take (scan a b 0) b ! j"
    by (simp add: js_index_def)
qed

lemma scan_eq_chains: "a = b \<Longrightarrow> scan a b i = max i (length a)"
proof (induction a b i rule: scan.induct)
  case (1 a b i)
  then show ?case by (subst scan.simps) auto
qed

lemma scan_same: "scan a a 0 = length a"
  by (simp add: scan_eq_chains)

text \<open>
  Claim C6. For all record chains \<open>A\<close> (previous) and \<open>B\<close> (next), the diff splits both
  chains at the first index \<open>i\<close> at which the records are not reference-equal (all
  smaller indices agree; \<open>i\<close> is the end of both chains or a position where they
  differ): \<open>updated = B[0..i)\<close>, \<open>activated = B[i..)\<close>, \<open>deactivated = A[i..)\<close>.
  \<open>Diff(A, A)\<close> has \<open>updated = A\<close> and nothing activated or deactivated, and
  \<open>updated ++ activated = B\<close>, \<open>updated ++ deactivated = A\<close>.
\<close>

theorem resolveQueue_split:
  "\<exists>i. (\<forall>j < i. j < length A \<and> j < length B \<and> A ! j = B ! j)
      \<and> (i = max (length A) (length B) \<or> js_index A i \<noteq> js_index B i)
      \<and> resolveQueue A B = \<lparr> updated = take i B, activated = drop i B, deactivated = drop i A \<rparr>
      \<and> resolveQueue A A = \<lparr> updated = A, activated = [], deactivated = [] \<rparr>
      \<and> updated (resolveQueue A B) @ activated (resolveQueue A B) = B
      \<and> updated (resolveQueue A B) @ deactivated (resolveQueue A B) = A"
proof -
  let ?i = "scan A B 0"
  have agree: "\<forall>j < ?i. j < length A \<and> j < length B \<and> A ! j = B ! j"
  proof (intro allI impI)
    fix j assume j: "j < ?i"
    with scan_min [of A B] have la: "j < length A" and lb: "j < length B" by simp_all
    from scan_agree [of 0 j A B] j have "js_index A j = js_index B j" by simp
    with la lb show "j < length A \<and> j < length B \<and> A ! j = B ! j"
      by (simp add: js_index_def)
  qed
  have stop: "?i = max (length A) (length B) \<or> js_index A ?i \<noteq> js_index B ?i"
    using scan_stop [of A B 0] scan_le [of 0 A B] by fastforce
  have split: "resolveQueue A B =
      \<lparr> updated = take ?i B, activated = drop ?i B, deactivated = drop ?i A \<rparr>"
    by (simp add: resolveQueue_def Let_def)
  have same: "resolveQueue A A = \<lparr> updated = A, activated = [], deactivated = [] \<rparr>"
    by (simp add: resolveQueue_def Let_def scan_same)
  have recB: "updated (resolveQueue A B) @ activated (resolveQueue A B) = B"
    by (simp add: resolveQueue_def Let_def)
  have "take ?i B @ drop ?i A = take ?i A @ drop ?i A"
    using scan_prefix [of A B] by simp
  then have recA: "updated (resolveQueue A B) @ deactivated (resolveQueue A B) = A"
    by (simp add: resolveQueue_def Let_def)
  from agree stop split same recB recA show ?thesis by blast
qed

theorem resolveQueue_split_witness:
  "\<exists>i. (\<forall>j < i. j < length [1, 2, 5 :: nat] \<and> j < length [1, 2, 3, 4 :: nat]
            \<and> [1, 2, 5 :: nat] ! j = [1, 2, 3, 4] ! j)
      \<and> (i = max (length [1, 2, 5 :: nat]) (length [1, 2, 3, 4 :: nat])
           \<or> js_index [1, 2, 5 :: nat] i \<noteq> js_index [1, 2, 3, 4] i)
      \<and> resolveQueue [1, 2, 5] [1, 2, 3, 4] =
          \<lparr> updated = take i [1, 2, 3, 4], activated = drop i [1, 2, 3, 4],
            deactivated = drop i [1, 2, 5] \<rparr>
      \<and> resolveQueue [1, 2, 5] [1, 2, 5] =
          \<lparr> updated = [1, 2, 5], activated = [], deactivated = [] \<rparr>
      \<and> updated (resolveQueue [1, 2, 5] [1, 2, 3, 4]) @ activated (resolveQueue [1, 2, 5] [1, 2, 3, 4])
          = [1, 2, 3, 4]
      \<and> updated (resolveQueue [1, 2, 5] [1, 2, 3, 4]) @ deactivated (resolveQueue [1, 2, 5] [1, 2, 3, 4])
          = [1, 2, 5]"
  using resolveQueue_split [of "[1, 2, 5]" "[1, 2, 3, 4]"] by simp

subsection \<open>Registering ready callbacks\<close>

text \<open>
  Claim C10. \<open>onReady(cb, errorCb)\<close>: when \<open>ready\<close> is true, \<open>cb\<close> is called at once
  with no arguments and nothing is stored (the state changes in its trace only); when it
  is false, \<open>cb\<close> is appended to \<open>readyCbs\<close>, \<open>errorCb\<close>, when given, to
  \<open>readyErrorCbs\<close>, and nothing is called.
\<close>

theorem onReady_spec:
  "(ready h \<longrightarrow> onReady c e h = h\<lparr>trace := trace h @ [Call c []]\<rparr>)
   \<and> (\<not> ready h \<longrightarrow>
        onReady c e h = h\<lparr>readyCbs := readyCbs h @ [c],
                           readyErrorCbs := (case e of None \<Rightarrow> readyErrorCbs h | Some x \<Rightarrow> readyErrorCbs h @ [x])\<rparr>)"
  by (cases e) (simp_all add: onReady_def emit_def Let_def)

theorem onReady_spec_witness:
  "\<not> ready new_history
   \<and> onReady 1 (Some 2) new_history = new_history\<lparr>readyCbs := [1], readyErrorCbs := [2]\<rparr>
   \<and> ready (new_history\<lparr>ready := True\<rparr>)
   \<and> onReady 1 (Some 2) (new_history\<lparr>ready := True\<rparr>) = new_history\<lparr>ready := True, trace := [Call 1 []]\<rparr>"
  using onReady_spec[of new_history 1 "Some 2"] onReady_spec[of "new_history\<lparr>ready := True\<rparr>" 1 "Some 2"]
  by (simp add: new_history_def)

subsection \<open>Delivery of failures by \<open>abort\<close>\<close>

lemma abort_None: "abort None err h =
   h\<lparr>trace := trace h @
       (if isNavigationFailure err None \<or> \<not> isError err then []
        else if errorCbs h = [] then [Warn ''uncaught error during route navigation:'', ConsoleError err]
        else map (\<lambda>c. Call c [AVal err]) (errorCbs h))\<rparr>"
  by (simp add: abort_def emit_def call_each_def)

text \<open>
  Claim C8. \<open>abort\<close> hands the failure to the \<open>onAbort\<close> of the call. A navigation
  failure of any of the four kinds reaches no error callback: with a plain callback
  \<open>c\<close> the only event is the call of \<open>c\<close>. An \<open>Error\<close> that is not a navigation
  failure is first given to every registered error callback in registration order, or
  printed with a warning when there is none, and then to \<open>onAbort\<close>. With the closure
  of \<open>transitionTo\<close> around a callback \<open>c\<close>, the call of \<open>c\<close> with the failure is
  the first thing that happens; only ready-error callbacks may follow.
\<close>

theorem abort_delivery:
  "abort (Some (AbortCb c)) (JNavFailure t f r) h
     = h\<lparr>trace := trace h @ [Call c [AVal (JNavFailure t f r)]]\<rparr>
   \<and> (isError err \<and> \<not> isNavigationFailure err None \<longrightarrow>
        abort (Some (AbortCb c)) err h
          = h\<lparr>trace := trace h
                 @ (if errorCbs h = []
                    then [Warn ''uncaught error during route navigation:'', ConsoleError err]
                    else map (\<lambda>e. Call e [AVal err]) (errorCbs h))
                 @ [Call c [AVal err]]\<rparr>)
   \<and> abort None (JNavFailure t f r) h = h
   \<and> abort (Some k) err h = run_onAbort k err (abort None err h)
   \<and> (\<exists>es. trace (run_onAbort (TransitionAbort (Some c) prev) err h) = trace h @ Call c [AVal err] # es
            \<and> set es \<subseteq> (\<lambda>rc. Call rc [AVal err]) ` set (readyErrorCbs h))"
  by (auto simp: abort_def emit_def call_each_def Let_def)

theorem abort_delivery_witness:
  "isError (JError ''boom'') \<and> \<not> isNavigationFailure (JError ''boom'') None
   \<and> abort (Some (AbortCb 9)) (JError ''boom'') (new_history\<lparr>errorCbs := [3, 4]\<rparr>)
       = new_history\<lparr>errorCbs := [3, 4],
                      trace := [Call 3 [AVal (JError ''boom'')], Call 4 [AVal (JError ''boom'')],
                                Call 9 [AVal (JError ''boom'')]]\<rparr>
   \<and> abort (Some (AbortCb 9)) (JNavFailure cancelled START routeA) (new_history\<lparr>errorCbs := [3, 4]\<rparr>)
       = new_history\<lparr>errorCbs := [3, 4],
                      trace := [Call 9 [AVal (JNavFailure cancelled START routeA)]]\<rparr>"
proof -
  let ?h = "new_history\<lparr>errorCbs := [3, 4]\<rparr>"
  let ?e = "JError ''boom''"
  from abort_delivery [of 9 cancelled START routeA ?h ?e]
  have nf: "abort (Some (AbortCb 9)) (JNavFailure cancelled START routeA) ?h
              = ?h\<lparr>trace := trace ?h @ [Call 9 [AVal (JNavFailure cancelled START routeA)]]\<rparr>"
    and er: "isError ?e \<and> \<not> isNavigationFailure ?e None \<longrightarrow>
        abort (Some (AbortCb 9)) ?e ?h
          = ?h\<lparr>trace := trace ?h
                 @ (if errorCbs ?h = []
                    then [Warn ''uncaught error during route navigation:'', ConsoleError ?e]
                    else map (\<lambda>e. Call e [AVal ?e]) (errorCbs ?h))
                 @ [Call 9 [AVal ?e]]\<rparr>"
    by blast+
  from nf er show ?thesis by (simp add: new_history_def)
qed

subsection \<open>Enter guards\<close>

lemma flatten_set: "x \<in> set (flatten xs) \<Longrightarrow> (Item x \<in> set xs) \<or> (\<exists>ys. Arr ys \<in> set xs \<and> x \<in> set ys)"
  by (induction xs rule: flatten.induct) auto

lemma first_error_set: "first_error xs = Inr ys \<Longrightarrow> set ys = {y. Inr y \<in> set xs}"
  by (induction xs arbitrary: ys rule: first_error.induct) (auto split: sum.splits)

lemma flatMapComponents_set:
  "x \<in> set (flatMapComponents recs ms fn)
   \<Longrightarrow> \<exists>m key def. m \<in> set ms \<and> (key, def) \<in> set (components (recs m))
         \<and> x = fn def (map_of (instances (recs m)) key) m key"
  unfolding flatMapComponents_def
  by (auto dest!: flatten_set) blast

lemma extractGuards_set:
  assumes "extractGuards recs ms name bind reverse = Inr q" and "x \<in> set q"
  shows "x = None \<or> (\<exists>m key def g. m \<in> set ms \<and> (key, def) \<in> set (components (recs m))
                         \<and> x = bind g (map_of (instances (recs m)) key) m key)"
proof -
  from assms(1) obtain gs where fe: "first_error (flatMapComponents recs ms (slot_guards name bind)) = Inr gs"
    and q: "q = flatten (if reverse then rev gs else gs)"
    by (auto simp: extractGuards_def split: sum.splits)
  from q assms(2) have "x \<in> set (flatten gs) \<or> x \<in> set (flatten (rev gs))" by (auto split: if_splits)
  then have "Item x \<in> set gs \<or> (\<exists>ys. Arr ys \<in> set gs \<and> x \<in> set ys)"
    by (auto dest!: flatten_set)
  then obtain it where it: "it \<in> set gs" and x: "it = Item x \<or> (\<exists>ys. it = Arr ys \<and> x \<in> set ys)"
    by blast
  from first_error_set [OF fe] it
  have "Inr it \<in> set (flatMapComponents recs ms (slot_guards name bind))" by simp
  from flatMapComponents_set [OF this]
  obtain m key def where m: "m \<in> set ms" and kd: "(key, def) \<in> set (components (recs m))"
    and sg: "slot_guards name bind def (map_of (instances (recs m)) key) m key = Inr it"
    by metis
  from sg x have "x = None \<or> (\<exists>g. x = bind g (map_of (instances (recs m)) key) m key)"
    by (auto simp: slot_guards_def split: sum.splits guards.splits)
  with m kd show ?thesis by blast
qed

text \<open>
  Claim C9. Every entry that \<open>extractEnterGuards\<close> takes from the activated records
  is a guard wrapped by \<open>bindEnterGuard\<close> for its record and view slot (or an empty
  entry). When the wrapped guard is run, or continued later, and its guard passes a
  value to \<open>next\<close>, a value that is a function is appended to the \<open>enteredCbs\<close> of
  that record and slot, and the same value goes on to the \<open>next\<close> of the iterator; for
  a function value the iterator proceeds with the queue.
\<close>

theorem enter_guard_wrapped:
  "(extractEnterGuards recs act = Inr q \<longrightarrow>
      (\<forall>x \<in> set q. x = None \<or>
          (\<exists>g m key. x = Some (bindEnterGuard g m key) \<and> m \<in> set act
                       \<and> key \<in> fst ` set (components (recs m)))))
   \<and> call_hook n ph (bindEnterGuard (Guard i (CallsNext v)) m key) rest nxt h
       = iter_next n nxt v (if typeof v = ''function'' then push_enteredCb m key v h else h)
   \<and> (js_index (waiting h) j = Some (Susp n (bindEnterGuard g m key) ph rest) \<longrightarrow>
        resume j v h
          = iter_next n (run_rest n ph rest) v
              (if typeof v = ''function'' then push_enteredCb m key v h else h))
   \<and> iter_next n nxt (JFun c) h = nxt h
   \<and> map_of (enteredCbs (records (push_enteredCb m key v h) m)) key
       = Some ((case map_of (enteredCbs (records h m)) key of None \<Rightarrow> [] | Some cs \<Rightarrow> cs) @ [v])"
proof -
  have a: "extractEnterGuards recs act = Inr q \<longrightarrow>
      (\<forall>x \<in> set q. x = None \<or>
          (\<exists>g m key. x = Some (bindEnterGuard g m key) \<and> m \<in> set act
                       \<and> key \<in> fst ` set (components (recs m))))"
  proof (intro impI ballI)
    fix x assume e: "extractEnterGuards recs act = Inr q" and x: "x \<in> set q"
    from extractGuards_set [OF e [unfolded extractEnterGuards_def] x]
    show "x = None \<or> (\<exists>g m key. x = Some (bindEnterGuard g m key) \<and> m \<in> set act
                       \<and> key \<in> fst ` set (components (recs m)))"
      by force
  qed
  have b: "call_hook n ph (bindEnterGuard (Guard i (CallsNext v)) m key) rest nxt h
       = iter_next n nxt v (if typeof v = ''function'' then push_enteredCb m key v h else h)"
    by (simp add: call_hook_def bindEnterGuard_def hook_next_def enter_next_def)
  have c: "js_index (waiting h) j = Some (Susp n (bindEnterGuard g m key) ph rest) \<longrightarrow>
        resume j v h
          = iter_next n (run_rest n ph rest) v
              (if typeof v = ''function'' then push_enteredCb m key v h else h)"
    by (simp add: resume_def bindEnterGuard_def hook_next_def enter_next_def)
  have d: "iter_next n nxt (JFun c) h = nxt h"
    by (simp add: iter_next_def)
  have e: "map_of (enteredCbs (records (push_enteredCb m key v h) m)) key
       = Some ((case map_of (enteredCbs (records h m)) key of None \<Rightarrow> [] | Some cs \<Rightarrow> cs) @ [v])"
    by (simp add: push_enteredCb_def Let_def update_Some_unfold)
  from a b c d e show ?thesis by blast
qed

theorem enter_guard_wrapped_witness:
  "extractEnterGuards records0 [1] = Inr [Some (bindEnterGuard enter_guard0 1 ''default'')]
   \<and> (\<exists>g m key. Some (bindEnterGuard enter_guard0 1 ''default'') = Some (bindEnterGuard g m key)
                   \<and> m \<in> set [1] \<and> key \<in> fst ` set (components (records0 m)))
   \<and> js_index (waiting (new_history\<lparr>waiting := [Susp nav0 (bindEnterGuard enter_guard0 1 ''default'') Second []]\<rparr>)) 0
       = Some (Susp nav0 (bindEnterGuard enter_guard0 1 ''default'') Second [])
   \<and> resume 0 (JFun 3) (new_history\<lparr>waiting := [Susp nav0 (bindEnterGuard enter_guard0 1 ''default'') Second []]\<rparr>)
       = iter_next nav0 (run_rest nav0 Second []) (JFun 3)
           (push_enteredCb 1 ''default'' (JFun 3)
              (new_history\<lparr>waiting := [Susp nav0 (bindEnterGuard enter_guard0 1 ''default'') Second []]\<rparr>))"
proof -
  have q: "extractEnterGuards records0 [1] = Inr [Some (bindEnterGuard enter_guard0 1 ''default'')]"
    by (simp add: extractEnterGuards_def extractGuards_def flatMapComponents_def slot_guards_def
        records0_def recordA_def)
  have w: "js_index (waiting (new_history\<lparr>waiting := [Susp nav0 (bindEnterGuard enter_guard0 1 ''default'') Second []]\<rparr>)) 0
       = Some (Susp nav0 (bindEnterGuard enter_guard0 1 ''default'') Second [])"
    by (simp add: js_index_def)
  from q w enter_guard_wrapped [of records0 "[1]" "[Some (bindEnterGuard enter_guard0 1 ''default'')]"
      nav0 Second 7 "JFun 3" 1 "''default''" "[]" "run_rest nav0 Second []"
      "new_history\<lparr>waiting := [Susp nav0 (bindEnterGuard enter_guard0 1 ''default'') Second []]\<rparr>"
      0 enter_guard0 3]
  show ?thesis by simp
qed

subsection \<open>Evaluating the engine on concrete states\<close>

lemmas engine_defs =
  confirmTransition_def transitionTo_def isSameRoute_def resolveQueue_def scan.simps js_index_def
  first_queue_def second_queue_def extractLeaveGuards_def extractUpdateHooks_def
  extractEnterGuards_def extractGuards_def flatMapComponents_def slot_guards_def bindGuard_def
  bindEnterGuard_def global_hooks_def iterator_def pending_is_def call_hook_def hook_next_def
  iter_next_def enter_next_def push_enteredCb_def redirect_def abort_def first_done_def
  complete_def resolveAsyncComponents_def slots_of_def new_step_def get_step_def set_step_def
  resolve_slot_def resolve_cb_def reject_cb_def resume_def settle_def step_next_def
  emit_def call_each_def updateRoute_def onReady_def onError_def array_prop_def lengt_h_def
  createNavigationAbortedError_def createNavigationCancelledError_def
  createNavigationDuplicatedError_def createNavigationRedirectedError_def Let_def

lemmas example_defs =
  new_history_def START_def empty_record_def routeA_def routeA2_def routeB_def routeC_def
  recordA_def recordC_def records0_def records1_def enter_guard0_def nav0_def nav1_def navC_def
  history_at_A_def suspended_example_def superseded_example_def lazy_example_def
  lazy_superseded_def plain_def_def nested_records_def route_child_def route_child2_def
  nested_example_def enter_def_def refusing_example_def refused_example_def
  refused_then_done_def throwing_example_def rejected_example_def recordD_def routeD_def
  navD_def two_lazy_start_def two_lazy_example_def two_failed_example_def

subsection \<open>The duplicate check\<close>

lemma lastCurrentIndex_NaN: "minus_one (array_prop xs lengt_h) = NaN"
  by (simp add: array_prop_def lengt_h_def)

lemma strict_eq_NaN: "strict_eq x NaN = False"
  by (cases x) simp_all

text \<open>
  Claim C5. For a route that is the same route as \<open>current\<close> (equal path, query, hash
  and params, matched chains of equal length with the same last record),
  \<open>confirmTransition\<close> should reconcile the location, abort with a duplicated failure
  and leave \<open>current\<close> alone. The code reads the property \<open>lengt\<close>\<open>h\<close> with U+00B7
  between the two parts, not \<open>length\<close>, of \<open>current.matched\<close>:
  \<open>lastCurrentIndex\<close> is \<open>NaN\<close> and the comparison of the two indices is never true.
  At the engine \<open>history_at_A\<close> and the route \<open>routeA2\<close>, a fresh route object equal to
  the current one, the navigation runs its queues and commits: no failure is delivered
  and \<open>current\<close> is replaced.
\<close>

theorem same_route_not_duplicated:
  "isSameRoute routeA2 (current history_at_A)
   \<and> length (matched routeA2) = length (matched (current history_at_A))
   \<and> last (matched routeA2) = last (matched (current history_at_A))
   \<and> (case confirmTransition routeA2 (TransitionComplete None routeA) (Some (AbortCb 9)) history_at_A of
        (h', e) \<Rightarrow> e = None \<and> trace h' = [RunHook (ResolveAsync []), EnsureURL False]
                  \<and> current h' = routeA2 \<and> rid (current h') \<noteq> rid (current history_at_A))"
  by (simp add: engine_defs example_defs)

subsection \<open>What the iterator does with the value given to \<open>next\<close>\<close>

lemma iter_next_proceeds: "proceeds to \<Longrightarrow> iter_next n nxt to h = nxt h"
  by (cases to) (auto simp: proceeds_def is_redirect_def iter_next_def split: sum.splits)

lemma iter_next_false:
  "iter_next n nxt (JBool False) h
     = (abort (n_onAbort n) (createNavigationAbortedError (n_current n) (n_route n))
          (emit (EnsureURL True) h), None)"
  by (simp add: iter_next_def)


lemma iter_next_redirect:
  "\<not> isError to \<Longrightarrow> is_redirect to \<Longrightarrow>
   iter_next n nxt to h
     = (let h1 = abort (n_onAbort n) (createNavigationRedirectedError (n_current n) (n_route n)) h
        in if typeof to = ''object''
              \<and> (case get_prop to ''replace'' of Inr v \<Rightarrow> truthy v | Inl e \<Rightarrow> False)
           then emit (Replace to) h1 else emit (Push to) h1, None)"
  by (cases to) (auto simp: iter_next_def is_redirect_def redirect_def Let_def split: sum.splits)

text \<open>
  Claim C3. The value given to \<open>next\<close> is mapped as the four lemmas above say:
  \<open>false\<close> reconciles the location with a forced push and aborts as aborted, an
  \<open>Error\<close> reconciles and aborts with it, a string or an object with a string
  \<open>path\<close> or \<open>name\<close> aborts as redirected and is pushed (or replaced) once, and a
  value that \<open>proceeds\<close> goes on to the next guard. The value \<open>null\<close> is in none of
  these classes: \<open>typeof null\<close> is \<open>object\<close>, reading \<open>to.path\<close> throws, and the
  pipeline does not proceed. With a first global guard that calls \<open>next(null)\<close>, the
  \<open>TypeError\<close> is caught by the iterator and the navigation is aborted with it; the second
  guard is never run.
\<close>

theorem next_null_does_not_proceed:
  "iter_next n nxt JNull h = (h, Some (JError ''TypeError''))
   \<and> trace (fst (transitionTo (Inr routeA) None (Some 9)
         (new_history\<lparr>records := records0,
                       beforeHooks := [Some (Guard 5 (CallsNext JNull)),
                                       Some (Guard 6 (CallsNext JUndefined))]\<rparr>)))
       = [RunHook (GlobalHook (Guard 5 (CallsNext JNull))),
          Warn ''uncaught error during route navigation:'',
          ConsoleError (JError ''TypeError''),
          Call 9 [AVal (JError ''TypeError'')]]"
  by (simp add: engine_defs example_defs)

subsection \<open>A superseded navigation\<close>

lemma runs_of_append: "runs_of (a @ b) = runs_of a @ runs_of b"
  by (induction a rule: runs_of.induct) simp_all

lemma runs_of_calls: "runs_of (map (\<lambda>c. Call c args) cs) = []"
  by (induction cs) simp_all

lemma quiet_refl: "quiet h h"
  by (simp add: quiet_def)

lemma quiet_trans: "quiet h h1 \<Longrightarrow> quiet h1 h2 \<Longrightarrow> quiet h h2"
  by (simp add: quiet_def)

lemma quiet_pending_is: "quiet h h' \<Longrightarrow> pending_is h' r = pending_is h r"
  by (simp add: quiet_def pending_is_def)

lemma quiet_emit: "runs_of [e] = [] \<Longrightarrow> quiet h (emit e h)"
  by (simp add: quiet_def emit_def hook_runs_def runs_of_append)


lemma quiet_ready: "quiet h (h\<lparr>ready := b\<rparr>)"
  by (simp add: quiet_def hook_runs_def)

lemma quiet_run_onAbort: "quiet h (run_onAbort k err h)"
proof (cases k)
  case (AbortCb c)
  then show ?thesis by (simp add: quiet_emit)
next
  case (TransitionAbort oa prev)
  then show ?thesis
    by (cases oa)
       (auto simp: quiet_def emit_def call_each_def hook_runs_def runs_of_append runs_of_calls Let_def)
qed

lemma quiet_abort: "quiet h (abort oa err h)"
proof -
  have a: "quiet h (abort None err h)"
    by (auto simp: abort_def quiet_def emit_def call_each_def hook_runs_def runs_of_append runs_of_calls)
  show ?thesis
  proof (cases oa)
    case None
    with a show ?thesis by simp
  next
    case (Some k)
    then have "abort oa err h = run_onAbort k err (abort None err h)"
      by (simp add: abort_def)
    with a quiet_run_onAbort [of "abort None err h" k err] show ?thesis
      by (auto intro: quiet_trans)
  qed
qed

lemma quiet_push_enteredCb: "quiet h (push_enteredCb m key c h)"
  by (simp add: quiet_def push_enteredCb_def hook_runs_def Let_def)

lemma quiet_redirect: "quiet h (redirect n to h)"
  unfolding redirect_def Let_def
  by (auto intro!: quiet_trans [OF quiet_abort quiet_emit])

lemma quiet_iter_next:
  assumes "quiet h (fst (nxt h))"
  shows "quiet h (fst (iter_next n nxt v h))"
proof -
  have e: "quiet h (emit (EnsureURL True) h)" by (simp add: quiet_emit)
  have a: "\<And>err. quiet h (abort (n_onAbort n) err (emit (EnsureURL True) h))"
    by (rule quiet_trans [OF e quiet_abort])
  show ?thesis
    unfolding iter_next_def
    using assms a quiet_redirect [of h n v]
    by (auto simp: quiet_refl split: sum.splits)
qed

lemma iterator_cancelled:
  "\<not> pending_is h (n_route n) \<Longrightarrow>
   iterator n ph hk rest nxt h
     = (abort (n_onAbort n) (createNavigationCancelledError (n_current n) (n_route n)) h, None)"
  by (simp add: iterator_def)

lemma complete_cancelled:
  "\<not> pending_is h (n_route n) \<Longrightarrow>
   complete n h
     = (abort (n_onAbort n) (createNavigationCancelledError (n_current n) (n_route n)) h, None)"
  by (simp add: complete_def)

lemma runQueue_cancelled:
  "\<not> pending_is h (n_route n) \<Longrightarrow>
   runQueue q (iterator n ph) cb h
     = (if somes q = [] then cb h
        else (abort (n_onAbort n) (createNavigationCancelledError (n_current n) (n_route n)) h, None))"
proof (induction q)
  case Nil
  then show ?case by simp
next
  case (Cons x q)
  then show ?case by (cases x) (simp_all add: iterator_cancelled)
qed

lemma first_done_cancelled:
  "\<not> pending_is h (n_route n) \<Longrightarrow>
   first_done n h
     = (case second_queue h n of
          Inl e \<Rightarrow> (h, Some e)
        | Inr q \<Rightarrow> (abort (n_onAbort n) (createNavigationCancelledError (n_current n) (n_route n)) h, None))"
  by (simp add: first_done_def runQueue_cancelled complete_cancelled split: sum.splits)

lemma run_rest_cancelled:
  assumes "\<not> pending_is h (n_route n)"
  shows "run_rest n ph rest h
     = (if somes rest = [] \<and> ph = First \<and> (\<exists>e. second_queue h n = Inl e)
        then (h, Some (projl (second_queue h n)))
        else (abort (n_onAbort n) (createNavigationCancelledError (n_current n) (n_route n)) h, None))"
  using assms
  by (cases ph)
     (auto simp: runQueue_cancelled first_done_cancelled complete_cancelled split: sum.splits)

lemma run_rest_quiet:
  "\<not> pending_is h (n_route n) \<Longrightarrow> quiet h (fst (run_rest n ph rest h))"
  by (simp add: run_rest_cancelled quiet_abort quiet_refl)

lemma hook_next_quiet:
  assumes "\<not> pending_is h (n_route n)"
  shows "quiet h (fst (hook_next n hk (run_rest n ph rest) v h))"
proof -
  have plain: "quiet h (fst (iter_next n (run_rest n ph rest) v h))"
    using assms by (intro quiet_iter_next run_rest_quiet)
  show ?thesis
  proof (cases "\<exists>g m key. hk = RouteEnterGuard g m key \<and> typeof v = ''function''")
    case True
    then obtain g m key where hk: "hk = RouteEnterGuard g m key" and f: "typeof v = ''function''"
      by blast
    let ?h1 = "push_enteredCb m key v h"
    have q1: "quiet h ?h1" by (rule quiet_push_enteredCb)
    with assms have "\<not> pending_is ?h1 (n_route n)" by (simp add: quiet_pending_is)
    then have "quiet ?h1 (fst (iter_next n (run_rest n ph rest) v ?h1))"
      by (intro quiet_iter_next run_rest_quiet)
    with q1 have "quiet h (fst (iter_next n (run_rest n ph rest) v ?h1))"
      by (rule quiet_trans)
    with hk f show ?thesis by (simp add: hook_next_def enter_next_def)
  next
    case False
    with plain show ?thesis
      by (cases hk) (auto simp: hook_next_def enter_next_def)
  qed
qed

lemma quiet_set_step: "quiet h (set_step sid st h)"
  by (simp add: quiet_def set_step_def hook_runs_def)

lemma quiet_records: "quiet h (h\<lparr>records := r\<rparr>)"
  by (simp add: quiet_def hook_runs_def)

lemma resolve_cb_quiet:
  assumes "\<And>h'. quiet h h' \<Longrightarrow> quiet h' (fst (nxt JUndefined h'))"
  shows "quiet h (fst (resolve_cb sid m key nxt d h))"
proof -
  let ?st = "get_step h sid"
  show ?thesis
  proof (cases "(m, key) \<in> set (st_resolve_called ?st)")
    case True
    then show ?thesis by (simp add: resolve_cb_def quiet_refl)
  next
    case False
    let ?h1 = "h\<lparr>records := (records h)
          (m := (records h m)\<lparr>components := AList.update key (Resolved d) (components (records h m))\<rparr>)\<rparr>"
    let ?st2 = "?st\<lparr>st_resolve_called := (m, key) # st_resolve_called ?st,
                     st_pending := st_pending ?st - 1\<rparr>"
    let ?h2 = "set_step sid ?st2 ?h1"
    have q: "quiet h ?h2"
      by (rule quiet_trans [OF quiet_records quiet_set_step])
    from assms [OF q] q have "quiet h (fst (nxt JUndefined ?h2))" by (rule quiet_trans [rotated])
    with q False show ?thesis
      by (simp add: resolve_cb_def Let_def)
  qed
qed

lemma reject_cb_quiet:
  assumes "\<And>v h'. quiet h h' \<Longrightarrow> quiet h' (fst (nxt v h'))"
  shows "quiet h (fst (reject_cb sid m key nxt reason h))"
proof -
  let ?st = "get_step h sid"
  show ?thesis
  proof (cases "(m, key) \<in> set (st_reject_called ?st)")
    case True
    then show ?thesis by (simp add: reject_cb_def quiet_refl)
  next
    case False
    let ?st1 = "?st\<lparr>st_reject_called := (m, key) # st_reject_called ?st\<rparr>"
    let ?h1 = "set_step sid ?st1 h"
    let ?h2 = "if \<not> production ?h1 then emit (WarnResolve key reason) ?h1 else ?h1"
    have q2: "quiet h ?h2"
      by (auto intro: quiet_trans [OF quiet_set_step quiet_emit] quiet_set_step)
    show ?thesis
    proof (cases "st_error ?st")
      case (Some e)
      with False q2 show ?thesis by (simp add: reject_cb_def Let_def)
    next
      case None
      let ?err = "if isError reason then reason else JResolveError key reason"
      let ?h3 = "set_step sid (?st1\<lparr>st_error := Some ?err\<rparr>) ?h2"
      have q3: "quiet h ?h3" by (rule quiet_trans [OF q2 quiet_set_step])
      from assms [OF q3] q3 have "quiet h (fst (nxt ?err ?h3))" by (rule quiet_trans [rotated])
      with False None show ?thesis by (simp add: reject_cb_def Let_def)
    qed
  qed
qed

lemma step_next_quiet:
  assumes "\<not> pending_is h (n_route (st_nav (get_step h0 sid)))"
  shows "quiet h (fst (step_next h0 sid v h))"
  unfolding step_next_def Let_def
  using assms by (intro quiet_iter_next run_rest_quiet)

lemma settle_quiet:
  assumes "\<not> pending_is h (n_route (st_nav (get_step h sid)))"
  shows "quiet h (fst (settle sid m key outcome h))"
proof -
  have nx: "\<And>v h'. quiet h h' \<Longrightarrow> quiet h' (fst (step_next h sid v h'))"
    using assms by (intro step_next_quiet) (simp add: quiet_pending_is)
  show ?thesis
    unfolding settle_def
    by (auto split: sum.splits intro: resolve_cb_quiet reject_cb_quiet nx quiet_refl)
qed

text \<open>
  Claim C2. Let a navigation \<open>n\<close> be in flight while \<open>pending\<close> is no longer its
  route (a second navigation has reassigned it). Then the iterator does not run a guard
  of \<open>n\<close> but aborts \<open>n\<close> with a cancelled failure, and so does the completion of the
  second queue. When a suspended guard of \<open>n\<close> calls its \<open>next\<close>, or a factory of its
  resolve step calls back, no hook is run and nothing is committed (\<open>quiet\<close>); if the
  value proceeds and an entry is left in the queue, the outcome is exactly the abort
  with the cancelled failure.
\<close>

theorem superseded_navigation_cancelled:
  assumes "\<not> pending_is h (n_route n)"
  shows "iterator n ph hk rest nxt h
           = (abort (n_onAbort n) (createNavigationCancelledError (n_current n) (n_route n)) h, None)
       \<and> complete n h
           = (abort (n_onAbort n) (createNavigationCancelledError (n_current n) (n_route n)) h, None)
       \<and> (js_index (waiting h) i = Some (Susp n hk ph rest) \<longrightarrow>
            quiet h (fst (resume i v h))
            \<and> (proceeds v \<and> somes rest \<noteq> [] \<longrightarrow>
                 resume i v h
                   = (abort (n_onAbort n) (createNavigationCancelledError (n_current n) (n_route n))
                        (case hk of
                           RouteEnterGuard g m key \<Rightarrow>
                             if typeof v = ''function'' then push_enteredCb m key v h else h
                         | _ \<Rightarrow> h), None)))
       \<and> (sid < length (steps h) \<and> st_nav (get_step h sid) = n \<longrightarrow>
            quiet h (fst (settle sid m' key' outcome h)))"
proof -
  have a: "iterator n ph hk rest nxt h
           = (abort (n_onAbort n) (createNavigationCancelledError (n_current n) (n_route n)) h, None)"
    using assms by (rule iterator_cancelled)
  have b: "complete n h
           = (abort (n_onAbort n) (createNavigationCancelledError (n_current n) (n_route n)) h, None)"
    using assms by (rule complete_cancelled)
  have c: "quiet h (fst (resume i v h))" if w: "js_index (waiting h) i = Some (Susp n hk ph rest)"
    using w hook_next_quiet [OF assms, of hk ph rest v] by (simp add: resume_def)
  have d: "resume i v h
             = (abort (n_onAbort n) (createNavigationCancelledError (n_current n) (n_route n))
                  (case hk of
                     RouteEnterGuard g m key \<Rightarrow>
                       if typeof v = ''function'' then push_enteredCb m key v h else h
                   | _ \<Rightarrow> h), None)"
    if w: "js_index (waiting h) i = Some (Susp n hk ph rest)" and p: "proceeds v" and r: "somes rest \<noteq> []"
  proof -
    have rr: "\<And>h'. \<not> pending_is h' (n_route n) \<Longrightarrow>
        run_rest n ph rest h'
          = (abort (n_onAbort n) (createNavigationCancelledError (n_current n) (n_route n)) h', None)"
      using r by (simp add: run_rest_cancelled)
    have pe: "\<And>m key. \<not> pending_is (push_enteredCb m key v h) (n_route n)"
      using assms by (simp add: quiet_pending_is [OF quiet_push_enteredCb])
    show ?thesis
      using w p rr [OF assms] rr [OF pe]
      by (cases hk) (simp_all add: resume_def hook_next_def enter_next_def iter_next_proceeds)
  qed
  have e: "quiet h (fst (settle sid m' key' outcome h))" if "st_nav (get_step h sid) = n"
    using that assms by (intro settle_quiet) simp
  from a b c d e show ?thesis by blast
qed

theorem superseded_navigation_cancelled_witness:
  "\<not> pending_is superseded_example (n_route nav1)
   \<and> js_index (waiting superseded_example) 0
       = Some (Susp nav1 (GlobalHook (Guard 5 Suspends)) First [None, Some (ResolveAsync [1])])
   \<and> proceeds JUndefined
   \<and> resume 0 JUndefined superseded_example
       = (abort (n_onAbort nav1) (createNavigationCancelledError START routeA) superseded_example, None)
   \<and> trace (fst (resume 0 JUndefined superseded_example))
       = trace superseded_example @ [Call 9 [AVal (JNavFailure cancelled START routeA)]]
   \<and> \<not> pending_is lazy_superseded (n_route navC)
   \<and> st_nav (get_step lazy_superseded 0) = navC
   \<and> quiet lazy_superseded (fst (settle 0 2 ''default'' (Inr plain_def) lazy_superseded))"
proof -
  have h1: "\<not> pending_is superseded_example (n_route nav1)"
    by (simp add: engine_defs example_defs)
  have w1: "js_index (waiting superseded_example) 0
       = Some (Susp nav1 (GlobalHook (Guard 5 Suspends)) First [None, Some (ResolveAsync [1])])"
    by (simp add: engine_defs example_defs)
  have p: "proceeds JUndefined" by (simp add: proceeds_def is_redirect_def)
  have h2: "\<not> pending_is lazy_superseded (n_route navC)"
    by (simp add: engine_defs example_defs)
  have s2: "0 < length (steps lazy_superseded) \<and> st_nav (get_step lazy_superseded 0) = navC"
    by (simp add: engine_defs example_defs)
  from superseded_navigation_cancelled [OF h1, of First "GlobalHook (Guard 5 Suspends)"
      "[None, Some (ResolveAsync [1])]" _ 0 JUndefined] w1 p
  have r1: "resume 0 JUndefined superseded_example
       = (abort (n_onAbort nav1) (createNavigationCancelledError START routeA) superseded_example, None)"
    by (simp add: nav1_def)
  have t1: "trace (abort (n_onAbort nav1) (createNavigationCancelledError START routeA) superseded_example)
       = trace superseded_example @ [Call 9 [AVal (JNavFailure cancelled START routeA)]]"
    by (simp add: engine_defs example_defs)
  from superseded_navigation_cancelled [OF h2, of _ _ _ _ _ _ 0 2 "''default''" "Inr plain_def"] s2
  have r2: "quiet lazy_superseded (fst (settle 0 2 ''default'' (Inr plain_def) lazy_superseded))"
    by simp
  from h1 w1 p r1 t1 h2 s2 r2 show ?thesis by simp
qed

subsection \<open>The order of the guards\<close>











lemma hook_runs_quiet: "quiet h h' \<Longrightarrow> hook_runs h' = hook_runs h"
  by (simp add: quiet_def)












lemma slots_of_steps [simp]: "slots_of (h\<lparr>steps := s\<rparr>) ms = slots_of h ms"
  by (simp add: slots_of_def)


lemma no_async_emit [simp]: "no_async (emit e h) ms = no_async h ms"
  by (simp add: no_async_def emit_def)

lemma hook_runs_steps [simp]: "hook_runs (h\<lparr>steps := s\<rparr>) = hook_runs h"
  by (simp add: hook_runs_def)

lemma hook_runs_push [simp]: "hook_runs (push_enteredCb m key c h) = hook_runs h"
  by (simp add: hook_runs_quiet [OF quiet_push_enteredCb])





lemma confirmTransition_runs:
  "confirmTransition r oc oa h =
     (let h1 = h\<lparr>pending := Some r\<rparr>;
          d = resolveQueue (matched (current h)) (matched r);
          n = \<lparr> n_route = r, n_current = current h, n_activated = activated d,
                n_onComplete = oc, n_onAbort = oa \<rparr>
      in case first_queue h1 d of
           Inl e \<Rightarrow> (h1, Some e)
         | Inr queue \<Rightarrow> runQueue queue (iterator n First) (first_done n) h1)"
  by (simp add: confirmTransition_def Let_def lastCurrentIndex_NaN strict_eq_NaN split: sum.splits)

lemma passes_pending_hk: "passes (h\<lparr>pending := p\<rparr>) hk = passes h hk"
  by (induction h hk rule: passes.induct) (simp_all add: no_async_def)

lemma passes_pending [simp]: "passes (h\<lparr>pending := p\<rparr>) = passes h"
  by (rule ext) (rule passes_pending_hk)

lemma second_queue_pending [simp]: "second_queue (h\<lparr>pending := p\<rparr>) n = second_queue h n"
  by (simp add: second_queue_def split: sum.splits)

lemma first_queue_pending [simp]: "first_queue (h\<lparr>pending := p\<rparr>) d = first_queue h d"
  by (simp add: first_queue_def split: sum.splits)

lemma hook_runs_pending [simp]: "hook_runs (h\<lparr>pending := p\<rparr>) = hook_runs h"
  by (simp add: hook_runs_def)





lemma hook_runs_set_step [simp]: "hook_runs (set_step sid st h) = hook_runs h"
  by (simp add: hook_runs_def set_step_def)

lemma hook_runs_with_resolved [simp]: "hook_runs (with_resolved m key d h) = hook_runs h"
  by (simp add: hook_runs_def with_resolved_def)







subsection \<open>Readiness\<close>

lemma trace_run_afterHooks:
  "trace (run_afterHooks hs r prev h)
     = trace h @ map (\<lambda>c. Call c [ARoute r, ARoute prev]) (somes hs)"
  by (induction hs r prev h rule: run_afterHooks.induct) (simp_all add: emit_def)

lemma fields_run_afterHooks [simp]:
  "ready (run_afterHooks hs r prev h) = ready h"
  "readyCbs (run_afterHooks hs r prev h) = readyCbs h"
  by (induction hs r prev h rule: run_afterHooks.induct) (simp_all add: emit_def)

lemma success_closure:
  "trace (run_onComplete (TransitionComplete oc prev) r h)
     = trace h
       @ (case listener h of Some c \<Rightarrow> [Call c [ARoute r]] | None \<Rightarrow> [])
       @ (case oc of Some c \<Rightarrow> [Call c [ARoute r]] | None \<Rightarrow> [])
       @ [EnsureURL False]
       @ map (\<lambda>c. Call c [ARoute r, ARoute prev]) (somes (afterHooks h))
       @ (if ready h then [] else map (\<lambda>c. Call c [ARoute r]) (readyCbs h))"
  "ready (run_onComplete (TransitionComplete oc prev) r h)"
  by (auto simp: Let_def updateRoute_def emit_def call_each_def trace_run_afterHooks
      split: option.splits)

lemma failure_closure:
  "trace (run_onAbort (TransitionAbort oa prev) err h)
     = trace h
       @ (case oa of Some c \<Rightarrow> [Call c [AVal err]] | None \<Rightarrow> [])
       @ (if truthy err \<and> \<not> ready h
             \<and> \<not> (isNavigationFailure err (Some redirected) \<and> rid prev = rid START)
          then map (\<lambda>c. Call c [AVal err]) (readyErrorCbs h) else [])"
  "ready (run_onAbort (TransitionAbort oa prev) err h)
     \<longleftrightarrow> ready h \<or> (truthy err \<and> \<not> (isNavigationFailure err (Some redirected) \<and> rid prev = rid START))"
  by (auto simp: Let_def emit_def call_each_def split: option.splits)

lemma stays_ready_refl: "stays_ready h h"
  by (simp add: stays_ready_def)

lemma stays_ready_trans: "stays_ready h h1 \<Longrightarrow> stays_ready h1 h2 \<Longrightarrow> stays_ready h h2"
  by (simp add: stays_ready_def)

lemma stays_ready_same: "ready h' = ready h \<Longrightarrow> stays_ready h h'"
  by (simp add: stays_ready_def)

lemma ready_emit [simp]: "ready (emit e h) = ready h"
  by (simp add: emit_def)

lemma ready_call_each [simp]: "ready (call_each cs args h) = ready h"
  by (simp add: call_each_def)

lemma ready_set_step [simp]: "ready (set_step sid st h) = ready h"
  by (simp add: set_step_def)

lemma ready_push [simp]: "ready (push_enteredCb m key c h) = ready h"
  by (simp add: push_enteredCb_def Let_def)

lemma stays_ready_run_onAbort: "stays_ready h (run_onAbort k err h)"
  by (cases k) (auto simp: stays_ready_def Let_def split: option.splits)

lemma stays_ready_abort: "stays_ready h (abort oa err h)"
proof -
  have "ready (abort None err h) = ready h" by (simp add: abort_def)
  then have a: "stays_ready h (abort None err h)" by (rule stays_ready_same)
  show ?thesis
  proof (cases oa)
    case None
    with a show ?thesis by simp
  next
    case (Some k)
    then have "abort oa err h = run_onAbort k err (abort None err h)" by (simp add: abort_def)
    with a stays_ready_run_onAbort [of "abort None err h" k err] show ?thesis
      by (auto intro: stays_ready_trans)
  qed
qed

lemma stays_ready_run_onComplete: "stays_ready h (run_onComplete k r h)"
proof (cases k)
  case (CompleteCb c)
  then show ?thesis by (simp add: stays_ready_def)
next
  case (TransitionComplete oc prev)
  then show ?thesis by (simp add: stays_ready_def success_closure(2) del: run_onComplete.simps)
qed

lemma stays_ready_redirect: "stays_ready h (redirect n to h)"
  using stays_ready_abort [of h "n_onAbort n"]
  by (auto simp: redirect_def Let_def stays_ready_def)

lemma stays_ready_iter_next:
  assumes "\<And>h'. stays_ready h' (fst (nxt h'))"
  shows "stays_ready h (fst (iter_next n nxt v h))"
proof -
  have a: "\<And>err. stays_ready h (abort (n_onAbort n) err (emit (EnsureURL True) h))"
    using stays_ready_abort [of "emit (EnsureURL True) h" "n_onAbort n"]
    by (simp add: stays_ready_def)
  show ?thesis
    unfolding iter_next_def
    using assms [of h] a stays_ready_redirect [of h n v]
    by (auto simp: stays_ready_refl split: sum.splits)
qed

lemma stays_ready_hook_next:
  assumes "\<And>h'. stays_ready h' (fst (nxt h'))"
  shows "stays_ready h (fst (hook_next n hk nxt v h))"
proof -
  have i: "\<And>h'. stays_ready h' (fst (iter_next n nxt v h'))"
    by (rule stays_ready_iter_next [where nxt = nxt, OF assms])
  show ?thesis
  proof (cases hk)
    case (RouteEnterGuard g m key)
    have "stays_ready h (if typeof v = ''function'' then push_enteredCb m key v h else h)"
      by (simp add: stays_ready_def)
    with i RouteEnterGuard show ?thesis
      by (auto simp: hook_next_def enter_next_def intro: stays_ready_trans)
  qed (simp_all add: hook_next_def i)
qed

lemma stays_ready_resolve_cb:
  assumes "\<And>v h'. stays_ready h' (fst (nxt v h'))"
  shows "stays_ready h (fst (resolve_cb sid m key nxt d h))"
proof -
  have "\<And>h2. ready h2 = ready h \<Longrightarrow> stays_ready h (fst (nxt JUndefined h2))"
    using assms by (auto simp: stays_ready_def)
  then show ?thesis
    by (auto simp: resolve_cb_def Let_def stays_ready_refl intro: stays_ready_same)
qed

lemma stays_ready_reject_cb:
  assumes "\<And>v h'. stays_ready h' (fst (nxt v h'))"
  shows "stays_ready h (fst (reject_cb sid m key nxt reason h))"
proof -
  have "\<And>v h2. ready h2 = ready h \<Longrightarrow> stays_ready h (fst (nxt v h2))"
    using assms by (auto simp: stays_ready_def)
  then show ?thesis
    by (auto simp: reject_cb_def Let_def stays_ready_refl split: option.splits
        intro: stays_ready_same)
qed

lemma stays_ready_run_calls:
  assumes "\<And>v h'. stays_ready h' (fst (nxt v h'))"
  shows "stays_ready h (fst (run_calls cs sid m key nxt h))"
proof (induction cs arbitrary: h)
  case Nil
  then show ?case by (simp add: stays_ready_refl)
next
  case (Cons c cs)
  show ?case
  proof (cases c)
    case (CallResolve d)
    obtain h1 e where r: "resolve_cb sid m key nxt d h = (h1, e)" by (cases "resolve_cb sid m key nxt d h")
    from stays_ready_resolve_cb [where nxt = nxt and h = h and sid = sid and m = m and key = key and d = d, OF assms] r
    have s1: "stays_ready h h1" by simp
    show ?thesis
      using CallResolve r s1 Cons.IH [of h1]
      by (cases e) (auto intro: stays_ready_trans)
  next
    case (CallReject x)
    obtain h1 e where r: "reject_cb sid m key nxt x h = (h1, e)" by (cases "reject_cb sid m key nxt x h")
    from stays_ready_reject_cb [where nxt = nxt and h = h and sid = sid and m = m and key = key and reason = x, OF assms] r
    have s1: "stays_ready h h1" by simp
    show ?thesis
      using CallReject r s1 Cons.IH [of h1]
      by (cases e) (auto intro: stays_ready_trans)
  qed
qed

lemma stays_ready_resolve_slot:
  assumes nx: "\<And>v h'. stays_ready h' (fst (nxt v h'))"
  shows "stays_ready h (fst (resolve_slot sid nxt m key h))"
proof (cases "map_of (components (records h m)) key")
  case None
  then show ?thesis by (simp add: resolve_slot_def stays_ready_refl)
next
  case (Some c)
  show ?thesis
  proof (cases c)
    case (Resolved d)
    with Some show ?thesis by (simp add: resolve_slot_def stays_ready_refl)
  next
    case (AsyncFactory f)
    obtain fid calls thrown where f: "f = Factory fid calls thrown" by (cases f)
    let ?st = "get_step h sid"
    let ?h1 = "set_step sid (?st\<lparr>st_hasAsync := True, st_pending := st_pending ?st + 1,
                                   st_slots := (m, key) # st_slots ?st\<rparr>) h"
    have s1: "stays_ready h ?h1" by (simp add: stays_ready_def)
    obtain h2 e where r: "run_calls calls sid m key nxt ?h1 = (h2, e)"
      by (cases "run_calls calls sid m key nxt ?h1")
    from stays_ready_run_calls [where nxt = nxt and h = ?h1 and cs = calls and sid = sid and m = m and key = key, OF nx] r
    have s2: "stays_ready ?h1 h2" by simp
    have s3: "\<And>x. stays_ready h2 (fst (reject_cb sid m key nxt x h2))"
      by (rule stays_ready_reject_cb [where nxt = nxt, OF nx])
    have "stays_ready h2 (fst (resolve_slot sid nxt m key h))"
      using Some AsyncFactory f r s3
      by (cases e; cases thrown) (simp_all add: resolve_slot_def Let_def stays_ready_refl)
    with s1 s2 show ?thesis by (blast intro: stays_ready_trans)
  qed
qed

lemma stays_ready_resolve_slots:
  assumes nx: "\<And>v h'. stays_ready h' (fst (nxt v h'))"
  shows "stays_ready h (fst (resolve_slots ss sid nxt h))"
proof (induction ss arbitrary: h)
  case Nil
  then show ?case by (simp add: stays_ready_refl)
next
  case (Cons s ss)
  obtain m key where s: "s = (m, key)" by (cases s)
  obtain h1 e where r: "resolve_slot sid nxt m key h = (h1, e)"
    by (cases "resolve_slot sid nxt m key h")
  from stays_ready_resolve_slot [where nxt = nxt and h = h and sid = sid and m = m and key = key, OF nx] r
  have s1: "stays_ready h h1" by simp
  show ?case
    using s r s1 Cons.IH [of h1]
    by (cases e) (auto intro: stays_ready_trans)
qed

lemma stays_ready_resolveAsyncComponents:
  assumes nx: "\<And>v h'. stays_ready h' (fst (nxt v h'))"
  shows "stays_ready h (fst (resolveAsyncComponents ms n ph rest nxt h))"
proof -
  let ?h1 = "h\<lparr>steps := steps h @ [new_step n ph rest]\<rparr>"
  have s1: "stays_ready h ?h1" by (simp add: stays_ready_def)
  obtain h2 e where r: "resolve_slots (slots_of ?h1 ms) (length (steps h)) nxt ?h1 = (h2, e)"
    by (cases "resolve_slots (slots_of ?h1 ms) (length (steps h)) nxt ?h1")
  from stays_ready_resolve_slots [where nxt = nxt and h = ?h1 and ss = "slots_of ?h1 ms"
      and sid = "length (steps h)", OF nx] r
  have s2: "stays_ready ?h1 h2" by simp
  have "stays_ready h2 (fst (resolveAsyncComponents ms n ph rest nxt h))"
    using r nx [where v = JUndefined and h' = h2]
    by (cases e) (simp_all add: resolveAsyncComponents_def Let_def stays_ready_refl)
  with s1 s2 show ?thesis by (blast intro: stays_ready_trans)
qed

lemma stays_ready_call_hook:
  assumes nx: "\<And>h'. stays_ready h' (fst (nxt h'))"
  shows "stays_ready h (fst (call_hook n ph hk rest nxt h))"
proof -
  have hn: "\<And>v h'. stays_ready h' (fst (hook_next n hk nxt v h'))"
    by (rule stays_ready_hook_next [where nxt = nxt, OF nx])
  have g: "stays_ready h (fst (run_guard g w (hook_next n hk nxt) h))" for g w
  proof (cases g)
    case (Guard i b)
    then show ?thesis using hn by (cases b) (simp_all add: stays_ready_def)
  qed
  show ?thesis
    using g stays_ready_resolveAsyncComponents [where nxt = "hook_next n hk nxt", OF hn]
    by (cases hk) (simp_all add: call_hook_def)
qed

lemma stays_ready_iterator:
  assumes nx: "\<And>h'. stays_ready h' (fst (nxt h'))"
  shows "stays_ready h (fst (iterator n ph hk rest nxt h))"
proof (cases "pending_is h (n_route n)")
  case False
  then show ?thesis by (simp add: iterator_def stays_ready_abort)
next
  case True
  let ?h0 = "emit (RunHook hk) h"
  obtain h1 e where r: "call_hook n ph hk rest nxt ?h0 = (h1, e)"
    by (cases "call_hook n ph hk rest nxt ?h0")
  from stays_ready_call_hook [where nxt = nxt and h = ?h0 and n = n and ph = ph and hk = hk
      and rest = rest, OF nx] r
  have "stays_ready ?h0 h1" by simp
  then have s1: "stays_ready h h1" by (simp add: stays_ready_def)
  show ?thesis
    using True r s1 stays_ready_abort [of h1 "n_onAbort n"]
    by (cases e) (auto simp: iterator_def intro: stays_ready_trans)
qed

lemma stays_ready_runQueue:
  assumes "\<And>h'. stays_ready h' (fst (cb h'))"
  shows "stays_ready h (fst (runQueue q (iterator n ph) cb h))"
proof (induction q arbitrary: h)
  case Nil
  then show ?case by (simp add: assms)
next
  case (Cons x q)
  then show ?case by (cases x) (simp_all add: stays_ready_iterator)
qed

lemma stays_ready_complete: "stays_ready h (fst (complete n h))"
proof -
  have "stays_ready h (run_onComplete (n_onComplete n) (n_route n) (h\<lparr>pending := None\<rparr>))"
    using stays_ready_run_onComplete [of "h\<lparr>pending := None\<rparr>"]
    by (simp add: stays_ready_def)
  then show ?thesis
    by (cases "pending_is h (n_route n)")
       (auto simp: complete_def Let_def stays_ready_abort, simp add: stays_ready_def)
qed

lemma stays_ready_first_done: "stays_ready h (fst (first_done n h))"
  by (auto simp: first_done_def stays_ready_refl stays_ready_runQueue stays_ready_complete
      split: sum.splits)

lemma stays_ready_run_rest: "stays_ready h (fst (run_rest n ph rest h))"
  by (cases ph) (simp_all add: stays_ready_runQueue stays_ready_complete stays_ready_first_done)

lemma stays_ready_confirmTransition: "stays_ready h (fst (confirmTransition r oc oa h))"
proof -
  have "\<And>n q. stays_ready (h\<lparr>pending := Some r\<rparr>)
          (fst (runQueue q (iterator n First) (first_done n) (h\<lparr>pending := Some r\<rparr>)))"
    by (intro stays_ready_runQueue stays_ready_first_done)
  then have "\<And>n q. stays_ready h
          (fst (runQueue q (iterator n First) (first_done n) (h\<lparr>pending := Some r\<rparr>)))"
    by (simp add: stays_ready_def)
  then show ?thesis
    by (auto simp: confirmTransition_runs Let_def stays_ready_def split: sum.splits)
qed

lemma stays_ready_transitionTo: "stays_ready h (fst (transitionTo mt oc oa h))"
proof (cases mt)
  case (Inl e)
  then show ?thesis by (simp add: transitionTo_def stays_ready_def)
next
  case (Inr r)
  then show ?thesis by (simp add: transitionTo_def stays_ready_confirmTransition)
qed

lemma stays_ready_resume: "stays_ready h (fst (resume i v h))"
  by (auto simp: resume_def stays_ready_refl stays_ready_hook_next stays_ready_run_rest
      split: option.splits susp.splits)

lemma stays_ready_settle: "stays_ready h (fst (settle sid m key outcome h))"
proof -
  have "\<And>v h'. stays_ready h' (fst (step_next h sid v h'))"
    by (simp add: step_next_def Let_def stays_ready_iter_next stays_ready_run_rest)
  then show ?thesis
    by (auto simp: settle_def stays_ready_refl stays_ready_resolve_cb stays_ready_reject_cb
        split: sum.splits)
qed

text \<open>
  Claim C4, as stated, fails in two ways. In \<open>refusing_example\<close> a global guard calls
  \<open>next(false)\<close>: the first navigation fails, the engine becomes ready and the
  ready-error callback is called. The next navigation completes, and it is the first
  transition that completes successfully, but the queued ready callback \<open>7\<close> is not
  called then or ever. In \<open>throwing_example\<close> the guard throws \<open>undefined\<close>: the
  transition fails while the engine is not ready, and \<open>ready\<close> stays false and no
  ready-error callback is called, although the failure is no redirect.
\<close>

theorem ready_counterexample:
  "readyCbs refusing_example = [7] \<and> readyErrorCbs refusing_example = [8]
   \<and> \<not> ready refusing_example
   \<and> current refused_example = START \<and> ready refused_example
   \<and> trace refused_example
       = [RunHook (GlobalHook (Guard 5 (CallsNext (JBool False)))), EnsureURL True,
          Call 8 [AVal (JNavFailure aborted START routeA)]]
   \<and> current refused_then_done = routeA2
   \<and> trace refused_then_done
       = trace refused_example
         @ [RunHook (ResolveAsync [1]), RunHook (RouteEnterGuard enter_guard0 1 ''default''),
            EnsureURL False]
   \<and> \<not> ready throwing_example
   \<and> \<not> ready (fst (transitionTo (Inr routeA) None None throwing_example))
   \<and> trace (fst (transitionTo (Inr routeA) None None throwing_example))
       = [RunHook (GlobalHook (Guard 5 (Throws JUndefined)))]"
  by (simp add: engine_defs example_defs)

text \<open>
  Claim C4, amended. A transition that completes successfully flushes the ready
  callbacks, with the route, only if the engine is not ready at that moment, and the
  engine is ready afterwards. A transition that fails gives the failure to the
  caller's \<open>onAbort\<close> and then, if the failure value is truthy and the engine is not
  ready, makes it ready and flushes the ready-error callbacks with the failure, unless
  the failure is a redirected navigation failure and the navigation started from the
  \<open>START\<close> route; then \<open>ready\<close> is left as it is. No operation of the engine makes a
  ready engine not ready again, so the ready callbacks are flushed at most once.
\<close>

theorem ready_once:
  "transitionTo (Inr r) oc oa h
     = confirmTransition r (TransitionComplete oc (current h))
         (Some (TransitionAbort oa (current h))) h
   \<and> trace (run_onComplete (TransitionComplete oc prev) r h)
       = trace h
         @ (case listener h of Some c \<Rightarrow> [Call c [ARoute r]] | None \<Rightarrow> [])
         @ (case oc of Some c \<Rightarrow> [Call c [ARoute r]] | None \<Rightarrow> [])
         @ [EnsureURL False]
         @ map (\<lambda>c. Call c [ARoute r, ARoute prev]) (somes (afterHooks h))
         @ (if ready h then [] else map (\<lambda>c. Call c [ARoute r]) (readyCbs h))
   \<and> ready (run_onComplete (TransitionComplete oc prev) r h)
   \<and> trace (run_onAbort (TransitionAbort oa prev) err h)
       = trace h
         @ (case oa of Some c \<Rightarrow> [Call c [AVal err]] | None \<Rightarrow> [])
         @ (if truthy err \<and> \<not> ready h
               \<and> \<not> (isNavigationFailure err (Some redirected) \<and> rid prev = rid START)
            then map (\<lambda>c. Call c [AVal err]) (readyErrorCbs h) else [])
   \<and> (ready (run_onAbort (TransitionAbort oa prev) err h)
        \<longleftrightarrow> ready h \<or> (truthy err
                        \<and> \<not> (isNavigationFailure err (Some redirected) \<and> rid prev = rid START)))
   \<and> stays_ready h (fst (transitionTo mt oc oa h))
   \<and> stays_ready h (fst (confirmTransition r k ka h))
   \<and> stays_ready h (fst (resume i v h))
   \<and> stays_ready h (fst (settle sid m key outcome h))
   \<and> stays_ready h (onReady c e h)
   \<and> stays_ready h (onError c h)
   \<and> stays_ready h (listen c h)
   \<and> stays_ready h (teardown h)"
proof -
  have t: "transitionTo (Inr r) oc oa h
     = confirmTransition r (TransitionComplete oc (current h))
         (Some (TransitionAbort oa (current h))) h"
    by (simp add: transitionTo_def)
  have o: "stays_ready h (onReady c e h)" "stays_ready h (onError c h)"
    "stays_ready h (listen c h)" "stays_ready h (teardown h)"
    by (auto simp: stays_ready_def onReady_def onError_def listen_def teardown_def call_each_def
        Let_def split: option.splits)
  from t o success_closure [of oc prev r h] failure_closure [of oa prev err h]
    stays_ready_transitionTo [of h mt oc oa] stays_ready_confirmTransition [of h r k ka]
    stays_ready_resume [of h i v] stays_ready_settle [of h sid m key outcome]
  show ?thesis by blast
qed

theorem ready_once_witness:
  "ready (refused_example\<lparr>beforeHooks := []\<rparr>)
   \<and> ready (fst (transitionTo (Inr routeA2) None None (refused_example\<lparr>beforeHooks := []\<rparr>)))
   \<and> \<not> ready refusing_example
   \<and> ready (run_onComplete (TransitionComplete None START) routeA refusing_example)
   \<and> trace (run_onComplete (TransitionComplete None START) routeA refusing_example)
       = [EnsureURL False, Call 7 [ARoute routeA]]"
proof -
  have r: "ready (refused_example\<lparr>beforeHooks := []\<rparr>)"
    and n: "\<not> ready refusing_example"
    and f: "listener refusing_example = None" "afterHooks refusing_example = []"
      "readyCbs refusing_example = [7]" "trace refusing_example = []"
    by (simp_all add: engine_defs example_defs)
  from ready_once [where h = "refused_example\<lparr>beforeHooks := []\<rparr>" and mt = "Inr routeA2"
      and oc = None and oa = None]
  have "stays_ready (refused_example\<lparr>beforeHooks := []\<rparr>)
          (fst (transitionTo (Inr routeA2) None None (refused_example\<lparr>beforeHooks := []\<rparr>)))"
    by blast
  with r have 1: "ready (fst (transitionTo (Inr routeA2) None None (refused_example\<lparr>beforeHooks := []\<rparr>)))"
    by (simp add: stays_ready_def)
  from ready_once [where h = refusing_example and r = routeA and oc = None and prev = START]
  have "trace (run_onComplete (TransitionComplete None START) routeA refusing_example)
       = trace refusing_example
         @ (case listener refusing_example of Some c \<Rightarrow> [Call c [ARoute routeA]] | None \<Rightarrow> [])
         @ (case (None :: cb option) of Some c \<Rightarrow> [Call c [ARoute routeA]] | None \<Rightarrow> [])
         @ [EnsureURL False]
         @ map (\<lambda>c. Call c [ARoute routeA, ARoute START]) (somes (afterHooks refusing_example))
         @ (if ready refusing_example then [] else map (\<lambda>c. Call c [ARoute routeA]) (readyCbs refusing_example))"
    and 3: "ready (run_onComplete (TransitionComplete None START) routeA refusing_example)"
    by blast+
  with n f have 2: "trace (run_onComplete (TransitionComplete None START) routeA refusing_example)
       = [EnsureURL False, Call 7 [ARoute routeA]]"
    by simp
  from r 1 n 2 3 show ?thesis by simp
qed

subsection \<open>The step that resolves async views\<close>




lemma length_steps_set_step [simp]: "length (steps (set_step sid st h)) = length (steps h)"
  by (simp add: set_step_def)

lemma records_set_step [simp]: "records (set_step sid st h) = records h"
  by (simp add: set_step_def)

lemma slot_is_async_set_step [simp]: "slot_is_async (set_step sid st h) m key = slot_is_async h m key"
  by (simp add: slot_is_async_def)

lemma slot_returns_set_step [simp]: "slot_returns (set_step sid st h) m key = slot_returns h m key"
  by (simp add: slot_returns_def)







end
